theory Spec2Isabelle
  imports Main "HOL-Library.Multiset"
begin

section \<open>Python string primitives used by harperbot.py\<close>

text \<open>
  Python's \<open>str\<close> is modelled as \<open>string\<close> (a list of \<open>char\<close>). Every primitive below
  is the pure function the source calls, written out on character lists.
\<close>

abbreviation newline :: char where
  "newline \<equiv> CHR 0x0A"

text \<open>\<open>s.split("\n")\<close>: always returns at least one piece.\<close>

fun split_nl :: "string \<Rightarrow> string list" where
  "split_nl [] = [[]]"
| "split_nl (c # cs) =
     (if c = newline then [] # split_nl cs
      else (case split_nl cs of [] \<Rightarrow> [[c]] | l # ls \<Rightarrow> (c # l) # ls))"

text \<open>\<open>"\n".join(xs)\<close>.\<close>

fun join_nl :: "string list \<Rightarrow> string" where
  "join_nl [] = []"
| "join_nl [x] = x"
| "join_nl (x # y # ys) = x @ newline # join_nl (y # ys)"

text \<open>\<open>s.startswith(p)\<close>.\<close>

definition startswith :: "string \<Rightarrow> string \<Rightarrow> bool" where
  "startswith s p \<longleftrightarrow> take (length p) s = p"

text \<open>\<open>s.endswith(p)\<close>, the suffix test.\<close>

definition endswith :: "string \<Rightarrow> string \<Rightarrow> bool" where
  "endswith s p \<longleftrightarrow> length p \<le> length s \<and> drop (length s - length p) s = p"

text \<open>\<open>sub in s\<close>: \<open>sub\<close> occurs somewhere in \<open>s\<close>.\<close>

fun contains :: "string \<Rightarrow> string \<Rightarrow> bool" where
  "contains [] sub \<longleftrightarrow> sub = []"
| "contains (c # cs) sub \<longleftrightarrow> startswith (c # cs) sub \<or> contains cs sub"

text \<open>\<open>s.strip()\<close>: the whitespace characters of \<open>str.isspace\<close> below code point 256.\<close>

definition is_space :: "char \<Rightarrow> bool" where
  "is_space c \<longleftrightarrow>
     (let n = (of_char c :: nat)
      in (9 \<le> n \<and> n \<le> 13) \<or> (28 \<le> n \<and> n \<le> 32) \<or> n = 133 \<or> n = 160)"

definition strip :: "string \<Rightarrow> string" where
  "strip s = rev (dropWhile is_space (rev (dropWhile is_space s)))"

text \<open>
  \<open>s.find(sub, start)\<close>: the lowest index at or after \<open>start\<close> where \<open>sub\<close> occurs;
  Python's \<open>-1\<close> is \<open>None\<close>.
\<close>

fun find_in :: "string \<Rightarrow> string \<Rightarrow> nat \<Rightarrow> nat option" where
  "find_in [] sub k = (if sub = [] then Some k else None)"
| "find_in (c # cs) sub k = (if startswith (c # cs) sub then Some k else find_in cs sub (k + 1))"

definition find_str :: "string \<Rightarrow> string \<Rightarrow> nat \<Rightarrow> nat option" where
  "find_str s sub start = (if length s < start then None else find_in (drop start s) sub start)"

text \<open>\<open>int(ds)\<close> on a string of decimal digits, and \<open>str(n)\<close>.\<close>

definition is_digit :: "char \<Rightarrow> bool" where
  "is_digit c \<longleftrightarrow> 48 \<le> (of_char c :: nat) \<and> (of_char c :: nat) \<le> 57"

definition digits_to_nat :: "string \<Rightarrow> nat" where
  "digits_to_nat ds = foldl (\<lambda>n c. 10 * n + (of_char c - 48)) 0 ds"

fun str_nat :: "nat \<Rightarrow> string" where
  "str_nat n =
     (if n < 10 then [char_of (48 + n)] else str_nat (n div 10) @ [char_of (48 + n mod 10)])"

declare str_nat.simps [simp del]

definition str_int :: "int \<Rightarrow> string" where
  "str_int k = (if k < 0 then CHR ''-'' # str_nat (nat (- k)) else str_nat (nat k))"

section \<open>The hunk-header pattern\<close>

text \<open>
  \<open>re.match(r"@@ -\d+(?:,\d+)? \+(\d+)(?:,\d+)? @@", line)\<close>, as a left-to-right matcher
  anchored at the start of the line. Each greedy \<open>\d+\<close> is followed by a character that
  is not a digit, and each optional group by a space, so the pattern has at most one way
  to match and no backtracking is needed. The result is group 1.
\<close>

definition match_lit :: "string \<Rightarrow> string \<Rightarrow> string option" where
  "match_lit lit s = (if startswith s lit then Some (drop (length lit) s) else None)"

definition match_digits :: "string \<Rightarrow> (string \<times> string) option" where
  "match_digits s =
     (let ds = takeWhile is_digit s
      in if ds = [] then None else Some (ds, dropWhile is_digit s))"

definition match_opt_count :: "string \<Rightarrow> string" where
  "match_opt_count s =
     (case match_lit '','' s of
        None \<Rightarrow> s
      | Some r \<Rightarrow> (case match_digits r of None \<Rightarrow> s | Some (ds, r') \<Rightarrow> r'))"

definition hunk_re :: "string \<Rightarrow> string option" where
  "hunk_re line =
     (case match_lit ''@@ -'' line of
        None \<Rightarrow> None
      | Some r1 \<Rightarrow>
         (case match_digits r1 of
            None \<Rightarrow> None
          | Some (ds1, r2) \<Rightarrow>
             (case match_lit '' +'' (match_opt_count r2) of
                None \<Rightarrow> None
              | Some r3 \<Rightarrow>
                 (case match_digits r3 of
                    None \<Rightarrow> None
                  | Some (group1, r4) \<Rightarrow>
                     (case match_lit '' @@'' (match_opt_count r4) of
                        None \<Rightarrow> None
                      | Some r5 \<Rightarrow> Some group1)))))"

section \<open>DiffPositionResolver: \<open>find_diff_position\<close>\<close>

text \<open>The \<open>for line in hunk_lines\<close> loop; \<open>Some position\<close> is its \<open>return position\<close>.\<close>

fun scan_hunk :: "int \<Rightarrow> int \<Rightarrow> nat \<Rightarrow> string list \<Rightarrow> nat option" where
  "scan_hunk line_number current_line position [] = None"
| "scan_hunk line_number current_line position (line # rest) =
     (if startswith line ''+'' then
        (if current_line = line_number then Some position
         else scan_hunk line_number (current_line + 1) (position + 1) rest)
      else if startswith line ''-'' then
        scan_hunk line_number current_line (position + 1) rest
      else
        scan_hunk line_number (current_line + 1) (position + 1) rest)"

text \<open>
  The inner \<open>while i < len(lines)\<close> loop over the hunks of one file section. The loop
  may fail to return, so it is a partial function and \<open>None\<close> stands for "does not
  return". A returned \<open>Inl position\<close> is the function's \<open>return position\<close>; \<open>Inr i\<close> is
  the loop ending (by \<open>break\<close> or by its condition) with index \<open>i\<close>.
\<close>

partial_function (option) hunks_loop :: "string list \<Rightarrow> int \<Rightarrow> nat \<Rightarrow> (nat + nat) option" where
  "hunks_loop diff_lines line_number i =
     (if i < length diff_lines then
        if startswith (diff_lines ! i) ''@@'' then
          (case hunk_re (diff_lines ! i) of
             Some group1 \<Rightarrow>
               (let hunk_start = int (digits_to_nat group1);
                    hunk_lines = takeWhile (\<lambda>l. \<not> startswith l ''@@'' \<and> \<not> startswith l ''diff --git'')
                                   (drop (i + 1) diff_lines)
                in case scan_hunk line_number hunk_start 1 hunk_lines of
                     Some position \<Rightarrow> Some (Inl position)
                   | None \<Rightarrow> hunks_loop diff_lines line_number (i + 1 + length hunk_lines))
           | None \<Rightarrow> hunks_loop diff_lines line_number i)
        else if startswith (diff_lines ! i) ''diff --git'' then Some (Inr i)
        else hunks_loop diff_lines line_number (i + 1)
      else Some (Inr i))"

declare hunks_loop.simps [code]

datatype position_result = Position nat | NotFound

text \<open>The outer \<open>while i < len(lines)\<close> loop over file headers.\<close>

partial_function (option) files_loop :: "string list \<Rightarrow> string \<Rightarrow> int \<Rightarrow> nat \<Rightarrow> position_result option" where
  "files_loop diff_lines file_path line_number i =
     (if i < length diff_lines then
        if startswith (diff_lines ! i) ''diff --git'' \<and> contains (diff_lines ! i) (''b/'' @ file_path) then
          (case hunks_loop diff_lines line_number (i + 1) of
             None \<Rightarrow> None
           | Some (Inl position) \<Rightarrow> Some (Position position)
           | Some (Inr i') \<Rightarrow> files_loop diff_lines file_path line_number i')
        else files_loop diff_lines file_path line_number (i + 1)
      else Some NotFound)"

declare files_loop.simps [code]

definition find_diff_position :: "string \<Rightarrow> string \<Rightarrow> int \<Rightarrow> position_result option" where
  "find_diff_position diff file_path line_number = files_loop (split_nl diff) file_path line_number 0"

section \<open>SuggestionExtractor: \<open>parse_diff_for_suggestions\<close> and \<open>parse_code_suggestions\<close>\<close>

record parse_state =
  hunk_start :: "int option"
  suggestion_lines :: "string list"
  current_line :: int
  line_num :: int

text \<open>The body of \<open>for line in lines\<close>.\<close>

definition parse_step :: "parse_state \<Rightarrow> string \<Rightarrow> parse_state" where
  "parse_step st line =
     (if startswith line ''@@'' then
        (case hunk_re line of
           Some group1 \<Rightarrow> st\<lparr>hunk_start := Some (int (digits_to_nat group1)),
                              current_line := int (digits_to_nat group1)\<rparr>
         | None \<Rightarrow> st)
      else if hunk_start st \<noteq> None then
        (if startswith line ''+'' then
           st\<lparr>line_num := (if suggestion_lines st = [] then current_line st else line_num st),
              suggestion_lines := suggestion_lines st @ [drop 1 line],
              current_line := current_line st + 1\<rparr>
         else if startswith line ''-'' then st
         else st\<lparr>current_line := current_line st + 1\<rparr>)
      else st)"

definition parse_init :: parse_state where
  "parse_init = \<lparr>hunk_start = None, suggestion_lines = [], current_line = 0, line_num = 0\<rparr>"

text \<open>The function body after \<open>lines = diff_text.strip().split("\n")\<close>.\<close>

definition parse_block_lines :: "string list \<Rightarrow> (string \<times> int \<times> string) option" where
  "parse_block_lines blk =
     (if blk = [] \<or> \<not> startswith (hd blk) ''--- a/'' then None
      else
        let file_path = drop 6 (hd blk);
            st = foldl parse_step parse_init blk
        in if suggestion_lines st \<noteq> []
           then Some (file_path, line_num st, join_nl (suggestion_lines st))
           else None)"

definition parse_diff_for_suggestions :: "string \<Rightarrow> (string \<times> int \<times> string) option" where
  "parse_diff_for_suggestions diff_text = parse_block_lines (split_nl (strip diff_text))"

text \<open>
  The \<open>while True\<close> loop of \<open>parse_code_suggestions\<close> that collects the fenced diff
  blocks. The slice \<open>analysis[start_pos + 8 : end_pos]\<close> is \<open>take\<close> after \<open>drop\<close>. That
  the loop terminates is proved with the facts about \<open>find\<close> below.
\<close>

function blocks_loop :: "string \<Rightarrow> nat \<Rightarrow> string list \<Rightarrow> string list" where
  "blocks_loop analysis start_pos diff_blocks =
     (case find_str analysis ''```diff\<newline>'' start_pos of
        None \<Rightarrow> diff_blocks
      | Some start_pos' \<Rightarrow>
         (case find_str analysis ''\<newline>```'' (start_pos' + 8) of
            None \<Rightarrow> diff_blocks
          | Some end_pos \<Rightarrow>
              blocks_loop analysis (end_pos + 4)
                (diff_blocks @ [take (end_pos - (start_pos' + 8)) (drop (start_pos' + 8) analysis)])))"
  by pat_completeness auto

definition extract_diff_blocks :: "string \<Rightarrow> string list" where
  "extract_diff_blocks analysis = blocks_loop analysis 0 []"

definition parse_code_suggestions :: "string \<Rightarrow> (string \<times> string \<times> string) list" where
  "parse_code_suggestions analysis =
     map (\<lambda>(file_path, line, suggestion). (file_path, str_int line, suggestion))
       (List.map_filter parse_diff_for_suggestions (extract_diff_blocks analysis))"

text \<open>
  The reading of the extraction that the specification gives. A marker occurs first at
  index \<open>n\<close> of a text when it occurs there and at no smaller index; \<open>split_at_first\<close>
  cuts a text at the first occurrence of a marker, and \<open>fenced_spans\<close> takes, from left
  to right, the text between a start marker and the next end marker after it (it
  terminates, as is proved below).
\<close>

definition first_at :: "string \<Rightarrow> string \<Rightarrow> nat \<Rightarrow> bool" where
  "first_at m s n \<longleftrightarrow>
     startswith (drop n s) m \<and> n \<le> length s \<and> (\<forall>k < n. \<not> startswith (drop k s) m)"

fun split_at_first :: "string \<Rightarrow> string \<Rightarrow> (string \<times> string) option" where
  "split_at_first m [] = (if m = [] then Some ([], []) else None)"
| "split_at_first m (c # cs) =
     (if startswith (c # cs) m then Some ([], drop (length m) (c # cs))
      else map_option (\<lambda>(before, after). (c # before, after)) (split_at_first m cs))"

function fenced_spans :: "string \<Rightarrow> string list" where
  "fenced_spans s =
     (case split_at_first ''```diff\<newline>'' s of
        None \<Rightarrow> []
      | Some (before, after_start) \<Rightarrow>
         (case split_at_first ''\<newline>```'' after_start of
            None \<Rightarrow> []
          | Some (block, after_end) \<Rightarrow> block # fenced_spans after_end))"
  by pat_completeness auto



section \<open>PatchApplier: the per-file loop of \<open>apply_suggestions_to_pr\<close>\<close>

text \<open>
  The loop state of the source: the current line sequence, the running \<open>offset\<close>, the
  \<open>applied\<close> flag, and the target lines for which the out-of-bounds warning was logged.
\<close>

record patch_state =
  lines :: "string list"
  offset :: int
  applied :: bool
  skipped :: "int list"

text \<open>
  One iteration of \<open>for line, suggestion in suggs\<close>. \<open>adjusted_line\<close> is a Python int and
  may be negative; the slice bounds are only reached when it is a valid index.
\<close>

definition apply_one :: "patch_state \<Rightarrow> int \<times> string \<Rightarrow> patch_state" where
  "apply_one st e =
     (let line = fst e; suggestion = snd e;
          adjusted_line = line - 1 + offset st
      in if \<not> (0 \<le> adjusted_line \<and> adjusted_line < int (length (lines st)))
         then st\<lparr>skipped := skipped st @ [line]\<rparr>
         else
           let sugg_lines = split_nl suggestion;
               num_old = 1;
               num_new = length sugg_lines
           in st\<lparr>lines := take (nat adjusted_line) (lines st) @ sugg_lines
                             @ drop (nat adjusted_line + num_old) (lines st),
                   offset := offset st + (int num_new - int num_old),
                   applied := True\<rparr>)"

definition apply_loop :: "patch_state \<Rightarrow> (int \<times> string) list \<Rightarrow> patch_state" where
  "apply_loop st suggs = foldl apply_one st suggs"

text \<open>
  The body of \<open>for file_path, suggs in suggestion_groups.items()\<close> once the content has
  been fetched: split, sort by line number (Python's sort is stable, as \<open>sort_key\<close> is),
  run the loop.
\<close>

definition apply_file :: "string \<Rightarrow> (int \<times> string) list \<Rightarrow> patch_state" where
  "apply_file current_content suggs =
     apply_loop \<lparr>lines = split_nl current_content, offset = 0, applied = False, skipped = []\<rparr>
       (sort_key fst suggs)"

text \<open>
  The entry written to \<open>changes[file_path]\<close>: present only when some edit was applied.
\<close>

definition file_change :: "string \<Rightarrow> (int \<times> string) list \<Rightarrow> string option" where
  "file_change current_content suggs =
     (let st = apply_file current_content suggs
      in if applied st then Some (join_nl (lines st)) else None)"

text \<open>
  The content of the file after the batch: the committed change when there is one, the
  fetched content otherwise (no commit is created for the file).
\<close>

definition content_after :: "string \<Rightarrow> (int \<times> string) list \<Rightarrow> string" where
  "content_after current_content suggs =
     (case file_change current_content suggs of Some c \<Rightarrow> c | None \<Rightarrow> current_content)"

text \<open>Two states that agree except for the warning log stay so through the loop.\<close>

definition same_content :: "patch_state \<Rightarrow> patch_state \<Rightarrow> bool" where
  "same_content s t \<longleftrightarrow> lines s = lines t \<and> offset s = offset t \<and> applied s = applied t"

text \<open>
  \<open>suggestion_groups[file_path].append((int(line), suggestion))\<close>: the groups in the
  order in which their paths first occur, as Python's dictionaries keep them. The line
  of a suggestion is taken after \<open>int(line)\<close>; the tuples carry the \<open>str\<close> of an \<open>int\<close>,
  so the conversion gives that number back.
\<close>

fun add_suggestion ::
  "(string \<times> (int \<times> string) list) list \<Rightarrow> string \<times> int \<times> string
     \<Rightarrow> (string \<times> (int \<times> string) list) list" where
  "add_suggestion [] (file_path, line, suggestion) = [(file_path, [(line, suggestion)])]"
| "add_suggestion ((fp, suggs) # groups) (file_path, line, suggestion) =
     (if fp = file_path then (fp, suggs @ [(line, suggestion)]) # groups
      else (fp, suggs) # add_suggestion groups (file_path, line, suggestion))"

definition suggestion_groups ::
  "(string \<times> int \<times> string) list \<Rightarrow> (string \<times> (int \<times> string) list) list" where
  "suggestion_groups suggestions = foldl add_suggestion [] suggestions"

text \<open>
  \<open>apply_suggestions_to_pr\<close>: the \<open>changes\<close> dictionary that is handed to
  \<open>create_commit_with_changes\<close>; no commit is created when it is empty. The repository
  is the content of each file at the head of the pull request, \<open>None\<close> where fetching it
  raises, in which case the content is taken to be empty.
\<close>

definition apply_suggestions_to_pr ::
  "(string \<Rightarrow> string option) \<Rightarrow> (string \<times> int \<times> string) list \<Rightarrow> (string \<times> string) list" where
  "apply_suggestions_to_pr repo suggestions =
     List.map_filter
       (\<lambda>(file_path, suggs).
          let current_content = (case repo file_path of Some c \<Rightarrow> c | None \<Rightarrow> [])
          in map_option (Pair file_path) (file_change current_content suggs))
       (suggestion_groups suggestions)"

text \<open>The repository of the unit tests: every path holds the three-line sample file.\<close>

definition sample_repo :: "string \<Rightarrow> string option" where
  "sample_repo file_path = Some ''line 1\<newline>line 2\<newline>line 3''"

section \<open>Well-formed diffs\<close>

text \<open>
  The data model of the specification: a unified diff is a sequence of file sections, a
  file section has a path and a sequence of hunks, a hunk has a new-file start line and
  a sequence of lines that are Added, Removed or Context. The header of a hunk also
  carries the old-file start line, two optional counts and a heading after the second
  \<open>@@\<close>; a file section may carry further header lines before its first hunk.
\<close>

datatype line_kind = Added | Removed | Context

record hunk =
  old_start :: nat
  old_count :: "nat option"
  new_start :: nat
  new_count :: "nat option"
  heading :: string
  body :: "(line_kind \<times> string) list"

record file_diff =
  path :: string
  extra_header :: "string list"
  hunks :: "hunk list"

text \<open>
  The standard text form of a diff, line by line. \<open>render_diff d n\<close> is the text of
  the diff followed by \<open>n\<close> empty lines: \<open>n = 0\<close> is the text without a final line
  break, \<open>n = 1\<close> the text that ends with a line break.
\<close>

fun prefix_of :: "line_kind \<Rightarrow> char" where
  "prefix_of Added = CHR ''+''"
| "prefix_of Removed = CHR ''-''"
| "prefix_of Context = CHR '' ''"

definition render_line :: "line_kind \<times> string \<Rightarrow> string" where
  "render_line l = prefix_of (fst l) # snd l"

fun render_count :: "nat option \<Rightarrow> string" where
  "render_count None = []"
| "render_count (Some n) = CHR '','' # str_nat n"

definition render_hunk_header :: "hunk \<Rightarrow> string" where
  "render_hunk_header h =
     ''@@ -'' @ str_nat (old_start h) @ render_count (old_count h)
       @ '' +'' @ str_nat (new_start h) @ render_count (new_count h) @ '' @@'' @ heading h"

definition render_hunk :: "hunk \<Rightarrow> string list" where
  "render_hunk h = render_hunk_header h # map render_line (body h)"

definition render_file_header :: "file_diff \<Rightarrow> string" where
  "render_file_header f = ''diff --git a/'' @ path f @ '' b/'' @ path f"

definition render_file :: "file_diff \<Rightarrow> string list" where
  "render_file f = render_file_header f # extra_header f @ concat (map render_hunk (hunks f))"

definition render_diff :: "file_diff list \<Rightarrow> nat \<Rightarrow> string" where
  "render_diff d n = join_nl (concat (map render_file d) @ replicate n [])"

text \<open>
  Well-formedness: no piece of text holds a line break, and the further header lines
  of a section are neither hunk headers nor file headers.
\<close>

definition no_nl :: "string \<Rightarrow> bool" where
  "no_nl s \<longleftrightarrow> newline \<notin> set s"

definition wf_hunk :: "hunk \<Rightarrow> bool" where
  "wf_hunk h \<longleftrightarrow> no_nl (heading h) \<and> (\<forall>l\<in>set (body h). no_nl (snd l))"

definition wf_file :: "file_diff \<Rightarrow> bool" where
  "wf_file f \<longleftrightarrow>
     no_nl (path f)
     \<and> (\<forall>l\<in>set (extra_header f).
           no_nl l \<and> \<not> startswith l ''@@'' \<and> \<not> startswith l ''diff --git'')
     \<and> (\<forall>h\<in>set (hunks f). wf_hunk h)"

definition wf_diff :: "file_diff list \<Rightarrow> bool" where
  "wf_diff d \<longleftrightarrow> (\<forall>f\<in>set d. wf_file f)"

text \<open>
  The new-file line number of the body line at offset \<open>k\<close> of a hunk: the start line
  plus the number of Added and Context lines before it. \<open>added_at h k t\<close>: the body
  line at offset \<open>k\<close> is an Added line with new-file line number \<open>t\<close>.
\<close>

definition new_line_no :: "hunk \<Rightarrow> nat \<Rightarrow> int" where
  "new_line_no h k = int (new_start h) + int (length (filter (\<lambda>l. fst l \<noteq> Removed) (take k (body h))))"

definition added_at :: "hunk \<Rightarrow> nat \<Rightarrow> int \<Rightarrow> bool" where
  "added_at h k t \<longleftrightarrow> k < length (body h) \<and> fst (body h ! k) = Added \<and> new_line_no h k = t"

text \<open>The sections the source scans for a path: those whose header contains \<open>b/<path>\<close>.\<close>

definition selected :: "string \<Rightarrow> file_diff \<Rightarrow> bool" where
  "selected file_path f \<longleftrightarrow> contains (render_file_header f) (''b/'' @ file_path)"

text \<open>A line that is neither a hunk header nor a file header.\<close>

abbreviation body_line :: "string \<Rightarrow> bool" where
  "body_line l \<equiv> \<not> startswith l ''@@'' \<and> \<not> startswith l ''diff --git''"

text \<open>
  A diff of two files: \<open>test.py.bak\<close>, which adds line 1, and \<open>test.py\<close>, which
  replaces line 5.
\<close>

definition two_file_diff :: "file_diff list" where
  "two_file_diff =
     [\<lparr>path = ''test.py.bak'', extra_header = [],
       hunks = [\<lparr>old_start = 1, old_count = None, new_start = 1, new_count = None,
                 heading = [], body = [(Added, ''x'')]\<rparr>]\<rparr>,
      \<lparr>path = ''test.py'', extra_header = [],
       hunks = [\<lparr>old_start = 5, old_count = None, new_start = 5, new_count = None,
                 heading = [], body = [(Removed, ''r''), (Added, ''b'')]\<rparr>]\<rparr>]"

text \<open>The sample diff of the specification.\<close>

definition sample_diff :: "file_diff list" where
  "sample_diff =
     [\<lparr>path = ''test.py'', extra_header = [],
       hunks = [\<lparr>old_start = 1, old_count = Some 3, new_start = 1, new_count = Some 3,
                 heading = [],
                 body = [(Context, ''old line 1''), (Removed, ''old line 2''),
                         (Added, ''new line 2''), (Context, ''old line 3'')]\<rparr>]\<rparr>]"

text \<open>A three-line file in the middle of a batch, used to run the loop on concrete input.\<close>

definition example_state :: patch_state where
  "example_state = \<lparr>lines = [''a'', ''b'', ''c''], offset = 0, applied = False, skipped = []\<rparr>"

section \<open>Termination of the loops over a text\<close>

text \<open>
  What \<open>find\<close> returns lies at or after the start position and leaves room for the
  text found; the loop of \<open>parse_code_suggestions\<close> terminates by this.
\<close>

lemma find_in_bounds:
  "find_in s sub k = Some r \<Longrightarrow> k \<le> r \<and> (r - k) + length sub \<le> length s"
proof (induction s arbitrary: k)
  case Nil
  then show ?case by (simp split: if_splits)
next
  case (Cons c cs)
  show ?case
  proof (cases "startswith (c # cs) sub")
    case True
    then have "length (take (length sub) (c # cs)) = length sub"
      unfolding startswith_def by simp
    then have "length sub \<le> length (c # cs)"
      by (simp only: length_take)
    with True Cons.prems show ?thesis by simp
  next
    case False
    with Cons.prems have "find_in cs sub (k + 1) = Some r" by simp
    from Cons.IH [OF this] show ?thesis unfolding length_Cons by arith
  qed
qed

lemma find_str_bounds:
  "find_str s sub start = Some r \<Longrightarrow> start \<le> r \<and> r + length sub \<le> length s"
proof -
  assume a: "find_str s sub start = Some r"
  then have le: "start \<le> length s" and f: "find_in (drop start s) sub start = Some r"
    by (simp_all add: find_str_def split: if_splits)
  from find_in_bounds [OF f] le show ?thesis by (simp only: length_drop) arith
qed

termination blocks_loop
proof (relation "measure (\<lambda>(analysis, start_pos, diff_blocks). length analysis - start_pos)")
  show "wf (measure (\<lambda>(analysis, start_pos, diff_blocks). length analysis - start_pos))"
    by simp
next
  fix analysis :: string and start_pos start_pos' end_pos :: nat and diff_blocks :: "string list"
  assume s: "find_str analysis ''```diff\<newline>'' start_pos = Some start_pos'"
    and e: "find_str analysis ''\<newline>```'' (start_pos' + 8) = Some end_pos"
  from find_str_bounds [OF s] find_str_bounds [OF e]
  have "start_pos < end_pos + 4" and "end_pos + 4 \<le> length analysis" by simp_all
  then show "((analysis, end_pos + 4,
               diff_blocks @ [take (end_pos - (start_pos' + 8)) (drop (start_pos' + 8) analysis)]),
              (analysis, start_pos, diff_blocks))
             \<in> measure (\<lambda>(analysis, start_pos, diff_blocks). length analysis - start_pos)"
    by simp
qed

declare blocks_loop.simps [simp del]

lemma split_at_first_append:
  "split_at_first m s = Some (before, after) \<Longrightarrow> s = before @ m @ after"
proof (induction s arbitrary: before)
  case Nil
  then show ?case by (simp split: if_splits)
next
  case (Cons c cs)
  show ?case
  proof (cases "startswith (c # cs) m")
    case True
    with Cons.prems have "before = []" and "after = drop (length m) (c # cs)" by simp_all
    with True show ?thesis
      unfolding startswith_def by (metis append_Nil append_take_drop_id)
  next
    case False
    with Cons.prems obtain b where "split_at_first m cs = Some (b, after)" and "before = c # b"
      by auto
    with Cons.IH show ?thesis by simp
  qed
qed

termination fenced_spans
  by (relation "measure length") (auto dest!: split_at_first_append)

declare fenced_spans.simps [simp del]

section \<open>Facts about the string primitives\<close>

lemma split_nl_not_Nil: "split_nl s \<noteq> []"
  by (induction s) (auto split: list.splits)

lemma length_split_nl_pos: "0 < length (split_nl s)"
  using split_nl_not_Nil [of s] by simp

lemma join_nl_Cons: "ys \<noteq> [] \<Longrightarrow> join_nl (x # ys) = x @ newline # join_nl ys"
  by (cases ys) simp_all

lemma join_split_nl: "join_nl (split_nl s) = s"
proof (induction s)
  case Nil
  show ?case by simp
next
  case (Cons c cs)
  obtain l ls where sp: "split_nl cs = l # ls"
    using split_nl_not_Nil [of cs] by (cases "split_nl cs") auto
  show ?case
  proof (cases "c = newline")
    case True
    with Cons show ?thesis by (simp add: join_nl_Cons split_nl_not_Nil)
  next
    case False
    with Cons sp show ?thesis by (cases ls) auto
  qed
qed

lemma startswith_Nil [simp]: "startswith s []"
  by (simp add: startswith_def)

lemma startswith_Nil_Cons [simp]: "\<not> startswith [] (d # p)"
  by (simp add: startswith_def)

lemma startswith_Cons_Cons [simp]: "startswith (c # s) (d # p) \<longleftrightarrow> c = d \<and> startswith s p"
  by (auto simp add: startswith_def)

section \<open>PatchApplier: one edit replaces one line\<close>

lemma apply_loop_Nil: "apply_loop st [] = st"
  by (simp add: apply_loop_def)

lemma apply_loop_Cons: "apply_loop st (e # es) = apply_loop (apply_one st e) es"
  by (simp add: apply_loop_def)

lemma apply_loop_append: "apply_loop st (es1 @ es2) = apply_loop (apply_loop st es1) es2"
  by (simp add: apply_loop_def)

lemma apply_one_out:
  "\<not> (0 \<le> fst e - 1 + offset st \<and> fst e - 1 + offset st < int (length (lines st))) \<Longrightarrow>
     apply_one st e = st\<lparr>skipped := skipped st @ [fst e]\<rparr>"
  by (simp add: apply_one_def Let_def)

lemma apply_one_in:
  "0 \<le> fst e - 1 + offset st \<Longrightarrow> fst e - 1 + offset st < int (length (lines st)) \<Longrightarrow>
   apply_one st e =
     st\<lparr>lines := take (nat (fst e - 1 + offset st)) (lines st) @ split_nl (snd e)
                    @ drop (Suc (nat (fst e - 1 + offset st))) (lines st),
        offset := offset st + (int (length (split_nl (snd e))) - 1),
        applied := True\<rparr>"
  by (simp add: apply_one_def Let_def)

lemma same_content_apply_one:
  "same_content s t \<Longrightarrow> same_content (apply_one s e) (apply_one t e)"
  by (simp add: same_content_def apply_one_def Let_def)

lemma same_content_apply_loop:
  "same_content s t \<Longrightarrow> same_content (apply_loop s es) (apply_loop t es)"
proof (induction es arbitrary: s t)
  case Nil
  then show ?case by (simp add: apply_loop_Nil)
next
  case (Cons e es)
  from Cons.prems have "same_content (apply_one s e) (apply_one t e)"
    by (rule same_content_apply_one)
  then show ?case
    unfolding apply_loop_Cons by (rule Cons.IH)
qed

lemma skipped_apply_one_prefix: "\<exists>zs. skipped (apply_one st e) = skipped st @ zs"
  by (simp add: apply_one_def Let_def)

lemma skipped_apply_loop_prefix: "\<exists>zs. skipped (apply_loop st es) = skipped st @ zs"
proof (induction es arbitrary: st)
  case Nil
  show ?case by (simp add: apply_loop_Nil)
next
  case (Cons e es)
  obtain zs where "skipped (apply_one st e) = skipped st @ zs"
    using skipped_apply_one_prefix by blast
  moreover obtain ws where "skipped (apply_loop (apply_one st e) es) = skipped (apply_one st e) @ ws"
    using Cons.IH by blast
  ultimately show ?case by (simp add: apply_loop_Cons)
qed

lemma not_applied_apply_one:
  "\<not> applied (apply_one st e) \<Longrightarrow> lines (apply_one st e) = lines st \<and> \<not> applied st"
  by (auto simp add: apply_one_def Let_def split: if_splits)

lemma applied_mono_one: "applied st \<Longrightarrow> applied (apply_one st e)"
  by (simp add: apply_one_def Let_def)

lemma applied_mono: "applied st \<Longrightarrow> applied (apply_loop st es)"
  by (induction es arbitrary: st) (simp_all add: apply_loop_Nil apply_loop_Cons applied_mono_one)

lemma not_applied_apply_loop:
  "\<not> applied (apply_loop st es) \<Longrightarrow> lines (apply_loop st es) = lines st"
proof (induction es arbitrary: st)
  case Nil
  show ?case by (simp add: apply_loop_Nil)
next
  case (Cons e es)
  from Cons.prems have n: "\<not> applied (apply_loop (apply_one st e) es)"
    by (simp add: apply_loop_Cons)
  then have "\<not> applied (apply_one st e)"
    using applied_mono by blast
  then have "lines (apply_one st e) = lines st"
    using not_applied_apply_one by blast
  with Cons.IH [OF n] show ?case by (simp add: apply_loop_Cons)
qed

lemma not_applied_content:
  "\<not> applied (apply_file content suggs) \<Longrightarrow>
     lines (apply_file content suggs) = split_nl content \<and> content_after content suggs = content"
  using not_applied_apply_loop [of _ "sort_key fst suggs"]
  by (simp add: apply_file_def content_after_def file_change_def)

lemma skip_out_of_bounds:
  assumes "\<not> (0 \<le> fst e - 1 + offset (apply_loop st es1)
              \<and> fst e - 1 + offset (apply_loop st es1) < int (length (lines (apply_loop st es1))))"
  shows "same_content (apply_loop st (es1 @ e # es2)) (apply_loop st (es1 @ es2))"
    and "fst e \<in> set (skipped (apply_loop st (es1 @ e # es2)))"
proof -
  let ?s = "apply_loop st es1"
  have one: "apply_one ?s e = ?s\<lparr>skipped := skipped ?s @ [fst e]\<rparr>"
    using assms by (rule apply_one_out)
  have "same_content (apply_one ?s e) ?s"
    by (simp add: one same_content_def)
  then have "same_content (apply_loop (apply_one ?s e) es2) (apply_loop ?s es2)"
    by (rule same_content_apply_loop)
  then show "same_content (apply_loop st (es1 @ e # es2)) (apply_loop st (es1 @ es2))"
    by (simp add: apply_loop_append apply_loop_Cons)
  obtain zs where "skipped (apply_loop (apply_one ?s e) es2) = skipped (apply_one ?s e) @ zs"
    using skipped_apply_loop_prefix by blast
  then show "fst e \<in> set (skipped (apply_loop st (es1 @ e # es2)))"
    by (simp add: apply_loop_append apply_loop_Cons one)
qed

lemma apply_one_lines:
  assumes "0 \<le> line - 1 + offset st" and "line - 1 + offset st < int (length (lines st))"
  shows "lines (apply_one st (line, suggestion))
           = take (nat (line - 1 + offset st)) (lines st) @ split_nl suggestion
               @ drop (Suc (nat (line - 1 + offset st))) (lines st)"
  using assms by (simp add: apply_one_in)

lemma replaced_length:
  assumes "a < length xs" and "r \<noteq> []"
  shows "length (take a xs @ r @ drop (Suc a) xs) = length xs + length r - 1"
  using assms by (cases r) auto

lemma replaced_before:
  assumes "a < length xs" and "k < a"
  shows "(take a xs @ r @ drop (Suc a) xs) ! k = xs ! k"
  using assms by (simp add: nth_append)

lemma replaced_middle:
  assumes "a < length xs" and "k < length r"
  shows "(take a xs @ r @ drop (Suc a) xs) ! (a + k) = r ! k"
  using assms by (simp add: nth_append)

lemma replaced_after:
  assumes "a < k" and "k < length xs" and "r \<noteq> []"
  shows "(take a xs @ r @ drop (Suc a) xs) ! (k + length r - 1) = xs ! k"
proof -
  have r: "0 < length r" using assms(3) by simp
  have m: "min (length xs) a = a" using assms by simp
  have "k + length r - 1 - a - length r = k - Suc a" using assms(1) r by arith
  moreover have "\<not> k + length r - 1 < a" using assms(1) r by arith
  moreover have "\<not> k + length r - 1 - a < length r" using assms(1) r by arith
  moreover have "Suc a + (k - Suc a) = k" using assms(1) by arith
  ultimately show ?thesis
    using assms(2) by (simp add: nth_append m)
qed

text \<open>
  Claim C2. An edit whose adjusted index is a valid index replaces exactly the one line
  at that index by the lines of the replacement, however many they are: the lines before
  the index are kept, the replacement lines follow from the index on, every line after
  the index is kept and moved by the number of replacement lines minus one, and the
  running offset grows by the number of replacement lines minus one. The two sample
  batches of the specification give the stated contents, also as the change that
  \<open>apply_suggestions_to_pr\<close> records for the file of the unit tests.
\<close>

theorem apply_one_replaces_one_line:
  assumes "0 \<le> line - 1 + offset st" and "line - 1 + offset st < int (length (lines st))"
  shows "length (lines (apply_one st (line, suggestion)))
           = length (lines st) + length (split_nl suggestion) - 1
    \<and> (\<forall>k < nat (line - 1 + offset st).
           lines (apply_one st (line, suggestion)) ! k = lines st ! k)
    \<and> (\<forall>k < length (split_nl suggestion).
           lines (apply_one st (line, suggestion)) ! (nat (line - 1 + offset st) + k)
             = split_nl suggestion ! k)
    \<and> (\<forall>k. nat (line - 1 + offset st) < k \<and> k < length (lines st) \<longrightarrow>
           lines (apply_one st (line, suggestion)) ! (k + length (split_nl suggestion) - 1)
             = lines st ! k)
    \<and> offset (apply_one st (line, suggestion))
           = offset st + (int (length (split_nl suggestion)) - 1)
    \<and> applied (apply_one st (line, suggestion))
    \<and> content_after ''line 1\<newline>line 2\<newline>line 3'' [(1, ''new line content'')]
           = ''new line content\<newline>line 2\<newline>line 3''
    \<and> content_after ''line 1\<newline>line 2\<newline>line 3''
             [(2, ''new line 1\<newline>new line 2\<newline>new line 3'')]
           = ''line 1\<newline>new line 1\<newline>new line 2\<newline>new line 3\<newline>line 3''
    \<and> apply_suggestions_to_pr sample_repo [(''test.py'', 1, ''new line content'')]
           = [(''test.py'', ''new line content\<newline>line 2\<newline>line 3'')]
    \<and> apply_suggestions_to_pr sample_repo
             [(''test.py'', 2, ''new line 1\<newline>new line 2\<newline>new line 3'')]
           = [(''test.py'',
               ''line 1\<newline>new line 1\<newline>new line 2\<newline>new line 3\<newline>line 3'')]"
proof -
  have a: "nat (line - 1 + offset st) < length (lines st)"
    using assms by simp
  note L = apply_one_lines [OF assms, of suggestion]
  have "length (lines (apply_one st (line, suggestion)))
           = length (lines st) + length (split_nl suggestion) - 1"
    unfolding L using a by (rule replaced_length) (rule split_nl_not_Nil)
  moreover have "\<forall>k < nat (line - 1 + offset st).
           lines (apply_one st (line, suggestion)) ! k = lines st ! k"
    unfolding L using a by (simp add: replaced_before)
  moreover have "\<forall>k < length (split_nl suggestion).
           lines (apply_one st (line, suggestion)) ! (nat (line - 1 + offset st) + k)
             = split_nl suggestion ! k"
    unfolding L using a by (simp add: replaced_middle)
  moreover have "\<forall>k. nat (line - 1 + offset st) < k \<and> k < length (lines st) \<longrightarrow>
           lines (apply_one st (line, suggestion)) ! (k + length (split_nl suggestion) - 1)
             = lines st ! k"
    unfolding L
    by (intro allI impI, elim conjE, rule replaced_after) (simp_all add: split_nl_not_Nil)
  moreover have "offset (apply_one st (line, suggestion))
           = offset st + (int (length (split_nl suggestion)) - 1)"
    using assms by (simp add: apply_one_in)
  moreover have "applied (apply_one st (line, suggestion))"
    using assms by (simp add: apply_one_in)
  moreover have "content_after ''line 1\<newline>line 2\<newline>line 3'' [(1, ''new line content'')]
           = ''new line content\<newline>line 2\<newline>line 3''"
    by (simp add: content_after_def file_change_def apply_file_def apply_loop_def apply_one_def)
  moreover have "content_after ''line 1\<newline>line 2\<newline>line 3''
             [(2, ''new line 1\<newline>new line 2\<newline>new line 3'')]
           = ''line 1\<newline>new line 1\<newline>new line 2\<newline>new line 3\<newline>line 3''"
    by (simp add: content_after_def file_change_def apply_file_def apply_loop_def apply_one_def)
  moreover have "apply_suggestions_to_pr sample_repo [(''test.py'', 1, ''new line content'')]
           = [(''test.py'', ''new line content\<newline>line 2\<newline>line 3'')]"
    by code_simp
  moreover have "apply_suggestions_to_pr sample_repo
             [(''test.py'', 2, ''new line 1\<newline>new line 2\<newline>new line 3'')]
           = [(''test.py'',
               ''line 1\<newline>new line 1\<newline>new line 2\<newline>new line 3\<newline>line 3'')]"
    by code_simp
  ultimately show ?thesis by blast
qed

theorem apply_one_replaces_one_line_witness:
  "0 \<le> (2::int) - 1 + offset example_state
   \<and> 2 - 1 + offset example_state < int (length (lines example_state))
   \<and> lines (apply_one example_state (2, ''x\<newline>y\<newline>z'')) = [''a'', ''x'', ''y'', ''z'', ''c'']
   \<and> length (lines (apply_one example_state (2, ''x\<newline>y\<newline>z''))) = 3 + 3 - 1
   \<and> lines (apply_one example_state (2, ''x\<newline>y\<newline>z'')) ! (2 + 3 - 1) = lines example_state ! 2
   \<and> offset (apply_one example_state (2, ''x\<newline>y\<newline>z'')) = 2"
  using apply_one_replaces_one_line [of 2 example_state "''x\<newline>y\<newline>z''"]
  by (simp add: example_state_def apply_one_def)

section \<open>PatchApplier: out-of-bounds edits\<close>

text \<open>
  Claim C4. An edit whose adjusted index lies outside the current line sequence is
  skipped and nothing else: the batch with that edit gives the same lines, offset and
  applied flag as the batch without it, so the edits after it are processed as before,
  and the warning for its target line is logged. When no edit of a batch applies, the
  lines are those of the input, no change is recorded and the content is the input.
  The single edit at line 10 of the three-line sample file is not applied, is logged as
  skipped, and leaves the content as it was; \<open>apply_suggestions_to_pr\<close> records no
  change for it.
\<close>

theorem out_of_bounds_edit_is_skipped:
  "(\<not> (0 \<le> fst e - 1 + offset (apply_loop st es1)
        \<and> fst e - 1 + offset (apply_loop st es1) < int (length (lines (apply_loop st es1))))
     \<longrightarrow> lines (apply_loop st (es1 @ e # es2)) = lines (apply_loop st (es1 @ es2))
       \<and> offset (apply_loop st (es1 @ e # es2)) = offset (apply_loop st (es1 @ es2))
       \<and> applied (apply_loop st (es1 @ e # es2)) = applied (apply_loop st (es1 @ es2))
       \<and> fst e \<in> set (skipped (apply_loop st (es1 @ e # es2))))
   \<and> (\<not> applied (apply_file content suggs)
     \<longrightarrow> lines (apply_file content suggs) = split_nl content
       \<and> file_change content suggs = None
       \<and> content_after content suggs = content)
   \<and> \<not> applied (apply_file ''line 1\<newline>line 2\<newline>line 3'' [(10, ''new content'')])
   \<and> skipped (apply_file ''line 1\<newline>line 2\<newline>line 3'' [(10, ''new content'')]) = [10]
   \<and> content_after ''line 1\<newline>line 2\<newline>line 3'' [(10, ''new content'')]
       = ''line 1\<newline>line 2\<newline>line 3''
   \<and> apply_suggestions_to_pr sample_repo [(''test.py'', 10, ''new content'')] = []"
proof (intro conjI impI)
  assume oob: "\<not> (0 \<le> fst e - 1 + offset (apply_loop st es1)
        \<and> fst e - 1 + offset (apply_loop st es1) < int (length (lines (apply_loop st es1))))"
  from skip_out_of_bounds(1) [OF oob, of es2]
  show "lines (apply_loop st (es1 @ e # es2)) = lines (apply_loop st (es1 @ es2))"
    and "offset (apply_loop st (es1 @ e # es2)) = offset (apply_loop st (es1 @ es2))"
    and "applied (apply_loop st (es1 @ e # es2)) = applied (apply_loop st (es1 @ es2))"
    by (simp_all add: same_content_def)
  from skip_out_of_bounds(2) [OF oob]
  show "fst e \<in> set (skipped (apply_loop st (es1 @ e # es2)))" .
next
  assume na: "\<not> applied (apply_file content suggs)"
  from not_applied_content [OF na]
  show "lines (apply_file content suggs) = split_nl content"
    and "content_after content suggs = content" by simp_all
  from na show "file_change content suggs = None"
    by (simp add: file_change_def)
next
  show "\<not> applied (apply_file ''line 1\<newline>line 2\<newline>line 3'' [(10, ''new content'')])"
    by (simp add: apply_file_def apply_loop_def apply_one_def)
  show "skipped (apply_file ''line 1\<newline>line 2\<newline>line 3'' [(10, ''new content'')]) = [10]"
    by (simp add: apply_file_def apply_loop_def apply_one_def)
  show "content_after ''line 1\<newline>line 2\<newline>line 3'' [(10, ''new content'')]
       = ''line 1\<newline>line 2\<newline>line 3''"
    by (simp add: content_after_def file_change_def apply_file_def apply_loop_def apply_one_def)
  show "apply_suggestions_to_pr sample_repo [(''test.py'', 10, ''new content'')] = []"
    by code_simp
qed

theorem out_of_bounds_edit_is_skipped_witness:
  "\<not> (0 \<le> fst (9::int, ''x'') - 1 + offset (apply_loop example_state [(1, ''p\<newline>q'')])
        \<and> fst (9::int, ''x'') - 1 + offset (apply_loop example_state [(1, ''p\<newline>q'')])
            < int (length (lines (apply_loop example_state [(1, ''p\<newline>q'')]))))
   \<and> lines (apply_loop example_state ([(1, ''p\<newline>q'')] @ (9, ''x'') # [(3, ''z'')])) = [''p'', ''q'', ''b'', ''z'']
   \<and> lines (apply_loop example_state ([(1, ''p\<newline>q'')] @ [(3, ''z'')])) = [''p'', ''q'', ''b'', ''z'']
   \<and> 9 \<in> set (skipped (apply_loop example_state ([(1, ''p\<newline>q'')] @ (9, ''x'') # [(3, ''z'')])))
   \<and> \<not> applied (apply_file ''a\<newline>b'' [(5, ''x''), (0, ''y'')])
   \<and> content_after ''a\<newline>b'' [(5, ''x''), (0, ''y'')] = ''a\<newline>b''"
  using out_of_bounds_edit_is_skipped
          [of "(9, ''x'')" example_state "[(1, ''p\<newline>q'')]" "[(3, ''z'')]" "''a\<newline>b''" "[(5, ''x''), (0, ''y'')]"]
  by (simp add: example_state_def apply_file_def apply_loop_def apply_one_def)


section \<open>PatchApplier: line count of a batch\<close>

lemma skipped_apply_loop_same:
  assumes "skipped (apply_loop (apply_one st e) es) = skipped st"
  shows "skipped (apply_one st e) = skipped st"
    and "skipped (apply_loop (apply_one st e) es) = skipped (apply_one st e)"
proof -
  obtain zs where z: "skipped (apply_one st e) = skipped st @ zs"
    using skipped_apply_one_prefix by blast
  obtain ws where w: "skipped (apply_loop (apply_one st e) es) = skipped (apply_one st e) @ ws"
    using skipped_apply_loop_prefix by blast
  from assms z w have "zs = [] \<and> ws = []" by simp
  with z w show "skipped (apply_one st e) = skipped st"
    and "skipped (apply_loop (apply_one st e) es) = skipped (apply_one st e)" by simp_all
qed

lemma not_skipped_in_bounds:
  assumes "skipped (apply_one st e) = skipped st"
  shows "0 \<le> fst e - 1 + offset st \<and> fst e - 1 + offset st < int (length (lines st))"
proof (rule ccontr)
  assume "\<not> ?thesis"
  then have "apply_one st e = st\<lparr>skipped := skipped st @ [fst e]\<rparr>"
    by (rule apply_one_out)
  with assms show False by simp
qed

lemma apply_one_length:
  assumes "0 \<le> fst e - 1 + offset st" and "fst e - 1 + offset st < int (length (lines st))"
  shows "int (length (lines (apply_one st e)))
           = int (length (lines st)) + (int (length (split_nl (snd e))) - 1)"
proof -
  have a: "nat (fst e - 1 + offset st) < length (lines st)" using assms by simp
  have "length (lines (apply_one st e)) = length (lines st) + length (split_nl (snd e)) - 1"
    using replaced_length [OF a split_nl_not_Nil, of "snd e"] assms by (simp add: apply_one_in)
  moreover have "0 < length (split_nl (snd e))" by (rule length_split_nl_pos)
  ultimately show ?thesis by arith
qed

lemma apply_loop_length:
  "skipped (apply_loop st es) = skipped st \<Longrightarrow>
     int (length (lines (apply_loop st es)))
       = int (length (lines st)) + (\<Sum>e\<leftarrow>es. int (length (split_nl (snd e))) - 1)"
proof (induction es arbitrary: st)
  case Nil
  show ?case by (simp add: apply_loop_Nil)
next
  case (Cons e es)
  from Cons.prems have s: "skipped (apply_loop (apply_one st e) es) = skipped st"
    by (simp add: apply_loop_Cons)
  note one = skipped_apply_loop_same [OF s]
  from not_skipped_in_bounds [OF one(1)]
  have "int (length (lines (apply_one st e)))
           = int (length (lines st)) + (int (length (split_nl (snd e))) - 1)"
    by (simp add: apply_one_length)
  with Cons.IH [OF one(2)] show ?case
    by (simp add: apply_loop_Cons)
qed

lemma sum_list_sort_key:
  fixes g :: "'a \<Rightarrow> int"
  shows "(\<Sum>e\<leftarrow>sort_key f xs. g e) = (\<Sum>e\<leftarrow>xs. g e)"
proof -
  have "mset (map g (sort_key f xs)) = mset (map g xs)" by simp
  then have "sum_mset (mset (map g (sort_key f xs))) = sum_mset (mset (map g xs))" by simp
  then show ?thesis by (simp only: sum_mset_sum_list)
qed

text \<open>
  Claim C3. When no edit of the batch is out of bounds at its adjusted index (no
  warning is logged), the number of lines after the batch is the number of lines of the
  original content plus, for every edit, the number of its replacement lines minus one.
  The batch is sorted by the loop itself, so the statement needs no hypothesis on the
  order or the distinctness of the target lines; it holds in particular for the distinct
  ascending batches of the claim.
\<close>

theorem line_count_after_batch:
  assumes "skipped (apply_file content suggs) = []"
  shows "int (length (lines (apply_file content suggs)))
           = int (length (split_nl content))
             + (\<Sum>e\<leftarrow>suggs. int (length (split_nl (snd e))) - 1)"
proof -
  let ?init = "\<lparr>lines = split_nl content, offset = 0, applied = False, skipped = []\<rparr>"
  from assms have "skipped (apply_loop ?init (sort_key fst suggs)) = skipped ?init"
    by (simp add: apply_file_def)
  from apply_loop_length [OF this] show ?thesis
    by (simp add: apply_file_def sum_list_sort_key)
qed

theorem line_count_after_batch_witness:
  "skipped (apply_file ''a\<newline>b\<newline>c'' [(3, ''z''), (1, ''p\<newline>q'')]) = []
   \<and> lines (apply_file ''a\<newline>b\<newline>c'' [(3, ''z''), (1, ''p\<newline>q'')]) = [''p'', ''q'', ''b'', ''z'']
   \<and> int (length (lines (apply_file ''a\<newline>b\<newline>c'' [(3, ''z''), (1, ''p\<newline>q'')]))) = 3 + ((1 - 1) + (2 - 1))"
  using line_count_after_batch [of "''a\<newline>b\<newline>c''" "[(3, ''z''), (1, ''p\<newline>q'')]"]
  by (simp add: apply_file_def apply_loop_def apply_one_def)

section \<open>PatchApplier: the order of the batch\<close>

lemma filter_distinct_key:
  "distinct (map f xs) \<Longrightarrow> k \<in> set xs \<Longrightarrow> filter (\<lambda>x. f k = f x) xs = [k]"
proof (induction xs)
  case Nil
  then show ?case by simp
next
  case (Cons x xs)
  show ?case
  proof (cases "k = x")
    case True
    from Cons.prems(1) have "\<forall>y\<in>set xs. f y \<noteq> f x" by (auto simp: image_iff)
    then have "filter (\<lambda>y. f x = f y) xs = []"
      by (auto simp: filter_empty_conv)
    with True show ?thesis by simp
  next
    case False
    with Cons.prems have k: "k \<in> set xs" and "f k \<noteq> f x" by (auto simp: image_iff)
    with Cons show ?thesis by simp
  qed
qed

lemma sort_key_permutation:
  assumes d: "distinct (map f xs)" and p: "mset ys = mset xs"
  shows "sort_key f ys = sort_key f xs"
proof (rule sym, rule properties_for_sort_key)
  show "mset (sort_key f ys) = mset xs" using p by simp
  show "sorted (map f (sort_key f ys))" by simp
  fix k assume "k \<in> set (sort_key f ys)"
  then have kx: "k \<in> set xs" using p by (metis mset_eq_setD set_sort)
  have "mset (map f (sort_key f ys)) = mset (map f xs)" using p by simp
  then have "distinct (map f (sort_key f ys))"
    using d by (metis mset_eq_imp_distinct_iff)
  then have "filter (\<lambda>x. f k = f x) (sort_key f ys) = [k]"
    using \<open>k \<in> set (sort_key f ys)\<close> by (rule filter_distinct_key)
  moreover have "filter (\<lambda>x. f k = f x) xs = [k]"
    using d kx by (rule filter_distinct_key)
  ultimately show "filter (\<lambda>x. f k = f x) (sort_key f ys) = filter (\<lambda>x. f k = f x) xs"
    by simp
qed

lemma content_after_lines: "content_after content suggs = join_nl (lines (apply_file content suggs))"
proof (cases "applied (apply_file content suggs)")
  case True
  then show ?thesis by (simp add: content_after_def file_change_def)
next
  case False
  from not_applied_content [OF False] show ?thesis by (simp add: join_split_nl)
qed

lemma sort_key_sorted_id: "sort_key f (sort_key f xs) = sort_key f xs"
  by (simp add: sort_key_id_if_sorted)

text \<open>
  Claim C8. The loop sorts its batch by target line, so for a batch whose target lines
  are pairwise distinct every permutation of the batch gives the same loop state, the
  same recorded change and the same final content, and that content is the one obtained
  by running the loop on the batch sorted ascending by target line.
\<close>

theorem batch_order_irrelevant:
  assumes "distinct (map fst suggs)" and "mset suggs' = mset suggs"
  shows "apply_file content suggs' = apply_file content suggs
    \<and> file_change content suggs' = file_change content suggs
    \<and> content_after content suggs' = content_after content suggs
    \<and> content_after content suggs'
        = join_nl (lines (apply_loop
            \<lparr>lines = split_nl content, offset = 0, applied = False, skipped = []\<rparr>
            (sort_key fst suggs)))"
proof -
  have s: "sort_key fst suggs' = sort_key fst suggs"
    using assms by (rule sort_key_permutation)
  then have f: "apply_file content suggs' = apply_file content suggs"
    by (simp add: apply_file_def)
  then have "file_change content suggs' = file_change content suggs"
    and "content_after content suggs' = content_after content suggs"
    by (simp_all add: file_change_def content_after_def)
  moreover have "content_after content suggs'
        = join_nl (lines (apply_loop
            \<lparr>lines = split_nl content, offset = 0, applied = False, skipped = []\<rparr>
            (sort_key fst suggs)))"
    by (simp add: content_after_lines f) (simp add: apply_file_def)
  ultimately show ?thesis using f by blast
qed

theorem batch_order_irrelevant_witness:
  "distinct (map fst [(1::int, ''p\<newline>q''), (3, ''z'')])
   \<and> mset [(3::int, ''z''), (1, ''p\<newline>q'')] = mset [(1, ''p\<newline>q''), (3, ''z'')]
   \<and> content_after ''a\<newline>b\<newline>c'' [(3, ''z''), (1, ''p\<newline>q'')] = ''p\<newline>q\<newline>b\<newline>z''
   \<and> content_after ''a\<newline>b\<newline>c'' [(1, ''p\<newline>q''), (3, ''z'')] = ''p\<newline>q\<newline>b\<newline>z''"
  using batch_order_irrelevant [of "[(1, ''p\<newline>q''), (3, ''z'')]" "[(3, ''z''), (1, ''p\<newline>q'')]" "''a\<newline>b\<newline>c''"]
  by (simp add: content_after_def file_change_def apply_file_def apply_loop_def apply_one_def)


section \<open>DiffPositionResolver: a hunk header that does not parse\<close>

lemma hunks_loop_stuck_aux:
  assumes h: "hunks_loop ls ln i = Some y"
  shows "\<not> (i < length ls \<and> startswith (ls ! i) ''@@'' \<and> hunk_re (ls ! i) = None)"
proof (rule hunks_loop.raw_induct
    [where P = "\<lambda>ls ln i y. \<not> (i < length ls \<and> startswith (ls ! i) ''@@'' \<and> hunk_re (ls ! i) = None)",
     OF _ h])
  fix f :: "string list \<Rightarrow> int \<Rightarrow> nat \<Rightarrow> (nat + nat) option"
  fix ls ln i y
  assume IH: "\<And>ls ln i y. f ls ln i = Some y \<Longrightarrow>
                \<not> (i < length ls \<and> startswith (ls ! i) ''@@'' \<and> hunk_re (ls ! i) = None)"
  assume step: "(if i < length ls then
        if startswith (ls ! i) ''@@'' then
          (case hunk_re (ls ! i) of
             Some group1 \<Rightarrow>
               (let hunk_start = int (digits_to_nat group1);
                    hunk_lines = takeWhile (\<lambda>l. \<not> startswith l ''@@'' \<and> \<not> startswith l ''diff --git'')
                                   (drop (i + 1) ls)
                in case scan_hunk ln hunk_start 1 hunk_lines of
                     Some position \<Rightarrow> Some (Inl position)
                   | None \<Rightarrow> f ls ln (i + 1 + length hunk_lines))
           | None \<Rightarrow> f ls ln i)
        else if startswith (ls ! i) ''diff --git'' then Some (Inr i)
        else f ls ln (i + 1)
      else Some (Inr i)) = Some y"
  show "\<not> (i < length ls \<and> startswith (ls ! i) ''@@'' \<and> hunk_re (ls ! i) = None)"
  proof
    assume stuck: "i < length ls \<and> startswith (ls ! i) ''@@'' \<and> hunk_re (ls ! i) = None"
    with step have "f ls ln i = Some y" by simp
    from IH [OF this] stuck show False by simp
  qed
qed

lemma hunks_loop_stuck:
  "i < length ls \<Longrightarrow> startswith (ls ! i) ''@@'' \<Longrightarrow> hunk_re (ls ! i) = None \<Longrightarrow>
     hunks_loop ls ln i = None"
  using hunks_loop_stuck_aux [of ls ln i] by (cases "hunks_loop ls ln i") auto

text \<open>
  Claim C7 says that \<open>find_diff_position\<close> returns for every input. In the source the
  branch for a line that starts with \<open>@@\<close> advances \<open>i\<close> only inside \<open>if match:\<close>, so
  on a line of the matched section that starts with \<open>@@\<close> and does not match the
  pattern the inner loop repeats with the same \<open>i\<close> for ever. On the two-line diff
  below the function does not return: its value in the model is \<open>None\<close>, neither a
  position nor \<open>NotFound\<close>.
\<close>

theorem find_diff_position_unparseable_header_no_result:
  "find_diff_position ''diff --git a/t b/t\<newline>@@ bad'' ''t'' 1 = None"
proof -
  have h: "hunk_re ''@@ bad'' = None"
    by (simp add: hunk_re_def match_lit_def startswith_def)
  have "hunks_loop [''diff --git a/t b/t'', ''@@ bad''] 1 (Suc 0) = None"
    by (rule hunks_loop_stuck) (simp_all add: h)
  then show ?thesis
    by (simp add: find_diff_position_def files_loop.simps [of _ _ _ 0] startswith_def)
qed

section \<open>SuggestionExtractor: what a block parses to\<close>








section \<open>SuggestionExtractor: lines before the first hunk header\<close>

lemma parse_step_no_header:
  "hunk_re l = None \<Longrightarrow> hunk_start st = None \<Longrightarrow> parse_step st l = st"
  by (simp add: parse_step_def)

lemma foldl_parse_step_no_header:
  "\<forall>l\<in>set pre. hunk_re l = None \<Longrightarrow> hunk_start st = None \<Longrightarrow> foldl parse_step st pre = st"
  by (induction pre arbitrary: st) (simp_all add: parse_step_no_header)

lemma header_not_hunk: "startswith l ''--- a/'' \<Longrightarrow> hunk_re l = None"
  by (cases l) (simp_all add: hunk_re_def match_lit_def)

lemma plus_line_not_hunk: "startswith l ''+'' \<Longrightarrow> hunk_re l = None"
  by (cases l) (simp_all add: hunk_re_def match_lit_def)

text \<open>
  Claim C10. Lines of a block that come after its first line and before the first hunk
  header that parses contribute nothing: the block parses to what it parses to with
  those lines removed, so they add nothing to the replacement text and do not set the
  target line. Every line that starts with \<open>+\<close>, the \<open>+++ b/<path>\<close> line among them,
  is such a line when it stands there.
\<close>

theorem lines_before_first_hunk_header_ignored:
  assumes "split_nl (strip diff_text) = first # pre @ rest"
    and "\<forall>l\<in>set pre. hunk_re l = None"
  shows "parse_diff_for_suggestions diff_text = parse_block_lines (first # rest)
    \<and> (\<forall>l. startswith l ''+'' \<longrightarrow> hunk_re l = None)"
proof
  show "\<forall>l. startswith l ''+'' \<longrightarrow> hunk_re l = None"
    by (simp add: plus_line_not_hunk)
  show "parse_diff_for_suggestions diff_text = parse_block_lines (first # rest)"
  proof (cases "startswith first ''--- a/''")
    case False
    with assms show ?thesis
      by (simp add: parse_diff_for_suggestions_def parse_block_lines_def)
  next
    case True
    then have "hunk_re first = None" by (rule header_not_hunk)
    then have one: "parse_step parse_init first = parse_init"
      by (simp add: parse_step_no_header parse_init_def)
    have "foldl parse_step parse_init pre = parse_init"
      using assms(2) by (rule foldl_parse_step_no_header) (simp add: parse_init_def)
    with one have "foldl parse_step parse_init (first # pre @ rest)
                     = foldl parse_step parse_init (first # rest)"
      by simp
    with assms(1) show ?thesis
      by (simp add: parse_diff_for_suggestions_def parse_block_lines_def)
  qed
qed

theorem lines_before_first_hunk_header_ignored_witness:
  "split_nl (strip ''--- a/f\<newline>+++ b/f\<newline>+stray\<newline>@@ -1 +1 @@\<newline>+new'')
     = ''--- a/f'' # [''+++ b/f'', ''+stray''] @ [''@@ -1 +1 @@'', ''+new'']
   \<and> hunk_re ''+++ b/f'' = None \<and> hunk_re ''+stray'' = None
   \<and> parse_diff_for_suggestions ''--- a/f\<newline>+++ b/f\<newline>+stray\<newline>@@ -1 +1 @@\<newline>+new''
     = Some (''f'', 1, ''new'')"
  using lines_before_first_hunk_header_ignored
          [of "''--- a/f\<newline>+++ b/f\<newline>+stray\<newline>@@ -1 +1 @@\<newline>+new''"
              "''--- a/f''" "[''+++ b/f'', ''+stray'']" "[''@@ -1 +1 @@'', ''+new'']"]
  by (simp add: strip_def is_space_def hunk_re_def match_lit_def match_digits_def
      match_opt_count_def is_digit_def digits_to_nat_def parse_block_lines_def
      parse_init_def parse_step_def)

section \<open>SuggestionExtractor: the fenced diff blocks\<close>

lemma find_in_split:
  "find_in s sub k =
     (case split_at_first sub s of None \<Rightarrow> None | Some (before, after) \<Rightarrow> Some (k + length before))"
proof (induction s arbitrary: k)
  case Nil
  show ?case by simp
next
  case (Cons c cs)
  show ?case
  proof (cases "startswith (c # cs) sub")
    case True
    then show ?thesis by simp
  next
    case False
    then show ?thesis
      by (simp add: Cons.IH split: option.splits)
  qed
qed

lemma find_str_split:
  "p \<le> length s \<Longrightarrow>
   find_str s sub p =
     (case split_at_first sub (drop p s) of
        None \<Rightarrow> None | Some (before, after) \<Rightarrow> Some (p + length before))"
  by (simp add: find_str_def find_in_split)

lemma len_start_marker: "length ''```diff\<newline>'' = 8"
  by simp

lemma len_end_marker: "length ''\<newline>```'' = 4"
  by simp

lemma split_at_first_drop:
  assumes "p \<le> length s" and "split_at_first m (drop p s) = Some (before, after)"
  shows "drop (p + length before + length m) s = after"
    and "p + length before + length m \<le> length s"
    and "take (length before) (drop p s) = before"
proof -
  from assms(2) have d: "drop p s = before @ m @ after"
    by (rule split_at_first_append)
  have "drop (p + length before + length m) s = drop (length before + length m) (drop p s)"
    by (simp add: add.commute add.left_commute)
  also have "\<dots> = after" unfolding d by simp
  finally show "drop (p + length before + length m) s = after" .
  have "length (drop p s) = length before + length m + length after"
    unfolding d by simp
  with assms(1) show "p + length before + length m \<le> length s" by simp
  show "take (length before) (drop p s) = before" unfolding d by simp
qed

lemma blocks_loop_spans:
  "p \<le> length analysis \<Longrightarrow> blocks_loop analysis p acc = acc @ fenced_spans (drop p analysis)"
proof (induction analysis p acc rule: blocks_loop.induct)
  case (1 analysis p acc)
  note le = "1.prems"
  show ?case
  proof (cases "split_at_first ''```diff\<newline>'' (drop p analysis)")
    case None
    then have "find_str analysis ''```diff\<newline>'' p = None"
      by (simp only: find_str_split [OF le] option.case)
    then have "blocks_loop analysis p acc = acc"
      by (subst blocks_loop.simps) (simp only: option.case)
    moreover from None have "fenced_spans (drop p analysis) = []"
      by (subst fenced_spans.simps) (simp only: option.case)
    ultimately show ?thesis by simp
  next
    case (Some ba)
    obtain before after_start where ba: "ba = (before, after_start)" by (cases ba)
    note s1 = Some [unfolded ba]
    have sp: "find_str analysis ''```diff\<newline>'' p = Some (p + length before)"
      by (simp only: find_str_split [OF le] s1 option.case prod.case)
    note dr = split_at_first_drop [OF le s1, unfolded len_start_marker]
    show ?thesis
    proof (cases "split_at_first ''\<newline>```'' after_start")
      case None
      then have "find_str analysis ''\<newline>```'' (p + length before + 8) = None"
        by (simp only: find_str_split [OF dr(2)] dr(1) option.case)
      then have "blocks_loop analysis p acc = acc"
        by (subst blocks_loop.simps) (simp only: sp option.case)
      moreover from None have "fenced_spans (drop p analysis) = []"
        by (subst fenced_spans.simps) (simp only: s1 option.case prod.case)
      ultimately show ?thesis by simp
    next
      case (Some bb)
      obtain block after_end where bb: "bb = (block, after_end)" by (cases bb)
      note s2 = Some [unfolded bb]
      have s2': "split_at_first ''\<newline>```'' (drop (p + length before + 8) analysis)
                   = Some (block, after_end)"
        by (simp only: dr(1) s2)
      have ep: "find_str analysis ''\<newline>```'' (p + length before + 8)
                  = Some (p + length before + 8 + length block)"
        by (simp only: find_str_split [OF dr(2)] s2' option.case prod.case)
      note dr2 = split_at_first_drop [OF dr(2) s2', unfolded len_end_marker]
      have blk: "take (p + length before + 8 + length block - (p + length before + 8))
                   (drop (p + length before + 8) analysis) = block"
        using dr2(3) by simp
      have IH: "blocks_loop analysis (p + length before + 8 + length block + 4) (acc @ [block])
                  = (acc @ [block]) @ fenced_spans after_end"
        using "1.IH" [OF sp ep dr2(2)] by (simp only: blk dr2(1))
      have L: "blocks_loop analysis p acc
                 = blocks_loop analysis (p + length before + 8 + length block + 4) (acc @ [block])"
        by (subst blocks_loop.simps) (simp only: sp ep option.case blk)
      have R: "fenced_spans (drop p analysis) = block # fenced_spans after_end"
        by (subst fenced_spans.simps) (simp only: s1 s2 option.case prod.case)
      show ?thesis by (simp only: L IH R append_assoc append_Cons append_Nil)
    qed
  qed
qed

lemma split_at_first_None: "split_at_first m s = None \<longleftrightarrow> \<not> contains s m"
  by (induction s) auto

lemma first_at_0: "first_at m s 0 \<longleftrightarrow> startswith s m"
  by (simp add: first_at_def)

lemma first_at_Suc:
  "first_at m (c # cs) (Suc n) \<longleftrightarrow> \<not> startswith (c # cs) m \<and> first_at m cs n"
proof -
  have "(\<forall>k < Suc n. \<not> startswith (drop k (c # cs)) m)
          \<longleftrightarrow> \<not> startswith (c # cs) m \<and> (\<forall>k < n. \<not> startswith (drop k cs) m)"
    (is "?L \<longleftrightarrow> ?R")
  proof
    assume l: ?L
    then have "\<not> startswith (drop 0 (c # cs)) m" by blast
    moreover have "\<forall>k < n. \<not> startswith (drop k cs) m"
    proof (intro allI impI)
      fix k assume "k < n"
      then have "Suc k < Suc n" by simp
      with l have "\<not> startswith (drop (Suc k) (c # cs)) m" by blast
      then show "\<not> startswith (drop k cs) m" by simp
    qed
    ultimately show ?R by simp
  next
    assume r: ?R
    show ?L
    proof (intro allI impI)
      fix k assume "k < Suc n"
      with r show "\<not> startswith (drop k (c # cs)) m" by (cases k) auto
    qed
  qed
  then show ?thesis by (auto simp add: first_at_def)
qed

lemma first_at_split:
  "first_at m s n \<Longrightarrow> split_at_first m s = Some (take n s, drop (n + length m) s)"
proof (induction s arbitrary: n)
  case Nil
  then have "m = []" by (cases m) (simp_all add: first_at_def)
  with Nil show ?case by (simp add: first_at_def)
next
  case (Cons c cs)
  show ?case
  proof (cases n)
    case 0
    with Cons.prems show ?thesis by (simp add: first_at_0)
  next
    case (Suc k)
    with Cons.prems have "\<not> startswith (c # cs) m" and "first_at m cs k"
      by (simp_all add: first_at_Suc)
    with Cons.IH [of k] Suc show ?thesis by simp
  qed
qed

lemma fenced_spans_none:
  "\<not> contains s ''```diff\<newline>'' \<Longrightarrow> fenced_spans s = []"
  by (subst fenced_spans.simps) (simp only: split_at_first_None [symmetric] option.case)

lemma fenced_spans_unterminated:
  assumes "first_at ''```diff\<newline>'' s n" and "\<not> contains (drop (n + 8) s) ''\<newline>```''"
  shows "fenced_spans s = []"
proof -
  note s1 = first_at_split [OF assms(1), unfolded len_start_marker]
  from assms(2) have s2: "split_at_first ''\<newline>```'' (drop (n + 8) s) = None"
    by (simp add: split_at_first_None)
  show ?thesis
    by (subst fenced_spans.simps) (simp only: s1 s2 option.case prod.case)
qed

lemma fenced_spans_block:
  assumes "first_at ''```diff\<newline>'' s n" and "first_at ''\<newline>```'' (drop (n + 8) s) k"
  shows "fenced_spans s = take k (drop (n + 8) s) # fenced_spans (drop (n + 8 + k + 4) s)"
proof -
  note s1 = first_at_split [OF assms(1), unfolded len_start_marker]
  note s2 = first_at_split [OF assms(2), unfolded len_end_marker]
  have d: "drop (k + 4) (drop (n + 8) s) = drop (n + 8 + k + 4) s"
    by (simp add: add.commute add.left_commute)
  show ?thesis
    by (subst fenced_spans.simps) (simp only: s1 s2 option.case prod.case d)
qed

text \<open>
  Claim C9. The blocks extracted from a text are the spans between a start marker and
  the next end marker after it, taken from left to right without overlap
  (\<open>fenced_spans\<close>). Spelled out: a text without a start marker has no block; when the
  first start marker has no end marker after it, there is no block, the open marker is
  dropped and nothing partial is returned; when the first start marker is at index \<open>n\<close>
  and the first end marker after it is \<open>k\<close> characters further, the first block is
  these \<open>k\<close> characters and the other blocks are those of the text after that end
  marker. In the sample text the second fence is never closed and only the first block
  is returned.
\<close>

theorem extract_diff_blocks_spans:
  "extract_diff_blocks analysis = fenced_spans analysis
   \<and> (\<not> contains analysis ''```diff\<newline>'' \<longrightarrow> extract_diff_blocks analysis = [])
   \<and> (first_at ''```diff\<newline>'' analysis n \<and> \<not> contains (drop (n + 8) analysis) ''\<newline>```''
        \<longrightarrow> extract_diff_blocks analysis = [])
   \<and> (first_at ''```diff\<newline>'' analysis n \<and> first_at ''\<newline>```'' (drop (n + 8) analysis) k
        \<longrightarrow> extract_diff_blocks analysis
              = take k (drop (n + 8) analysis) # extract_diff_blocks (drop (n + 8 + k + 4) analysis))
   \<and> extract_diff_blocks ''x\<newline>```diff\<newline>A\<newline>```\<newline>y\<newline>```diff\<newline>B'' = [''A'']"
proof -
  have eq: "extract_diff_blocks s = fenced_spans s" for s
    using blocks_loop_spans [of 0 s "[]"] by (simp add: extract_diff_blocks_def)
  have ex: "extract_diff_blocks ''x\<newline>```diff\<newline>A\<newline>```\<newline>y\<newline>```diff\<newline>B'' = [''A'']"
    by code_simp
  from fenced_spans_none [of analysis] fenced_spans_unterminated [of analysis n]
    fenced_spans_block [of analysis n k] ex
  show ?thesis unfolding eq by blast
qed


theorem extract_diff_blocks_spans_witness:
  "first_at ''```diff\<newline>'' ''x\<newline>```diff\<newline>A\<newline>```\<newline>y'' 2
   \<and> first_at ''\<newline>```'' (drop (2 + 8) ''x\<newline>```diff\<newline>A\<newline>```\<newline>y'') 1
   \<and> extract_diff_blocks ''x\<newline>```diff\<newline>A\<newline>```\<newline>y'' = [''A'']
   \<and> \<not> contains ''no fence'' ''```diff\<newline>''
   \<and> extract_diff_blocks ''no fence'' = []
   \<and> first_at ''```diff\<newline>'' ''```diff\<newline>B'' 0
   \<and> \<not> contains (drop (0 + 8) ''```diff\<newline>B'') ''\<newline>```''
   \<and> extract_diff_blocks ''```diff\<newline>B'' = []"
proof -
  have f1: "first_at ''```diff\<newline>'' ''x\<newline>```diff\<newline>A\<newline>```\<newline>y'' 2"
    by (simp add: first_at_Suc first_at_0 eval_nat_numeral)
  have f2: "first_at ''\<newline>```'' (drop (2 + 8) ''x\<newline>```diff\<newline>A\<newline>```\<newline>y'') 1"
    by (simp add: first_at_Suc first_at_0 eval_nat_numeral)
  have e1: "extract_diff_blocks (drop (2 + 8 + 1 + 4) ''x\<newline>```diff\<newline>A\<newline>```\<newline>y'') = []"
    by code_simp
  have t1: "take 1 (drop (2 + 8) ''x\<newline>```diff\<newline>A\<newline>```\<newline>y'') = ''A''"
    by (simp add: eval_nat_numeral)
  have c2: "\<not> contains ''no fence'' ''```diff\<newline>''"
    by simp
  have f3: "first_at ''```diff\<newline>'' ''```diff\<newline>B'' 0"
    by (simp add: first_at_0)
  have c3: "\<not> contains (drop (0 + 8) ''```diff\<newline>B'') ''\<newline>```''"
    by simp
  from extract_diff_blocks_spans [of "''x\<newline>```diff\<newline>A\<newline>```\<newline>y''" 2 1] f1 f2
  have "extract_diff_blocks ''x\<newline>```diff\<newline>A\<newline>```\<newline>y''
          = take 1 (drop (2 + 8) ''x\<newline>```diff\<newline>A\<newline>```\<newline>y'')
            # extract_diff_blocks (drop (2 + 8 + 1 + 4) ''x\<newline>```diff\<newline>A\<newline>```\<newline>y'')"
    by blast
  then have r1: "extract_diff_blocks ''x\<newline>```diff\<newline>A\<newline>```\<newline>y'' = [''A'']"
    by (simp only: e1 t1)
  from extract_diff_blocks_spans [of "''no fence''" 0 0] c2
  have r2: "extract_diff_blocks ''no fence'' = []" by blast
  from extract_diff_blocks_spans [of "''```diff\<newline>B''" 0 0] f3 c3
  have r3: "extract_diff_blocks ''```diff\<newline>B'' = []" by blast
  from f1 f2 r1 c2 r2 f3 c3 r3 show ?thesis by blast
qed


section \<open>DiffPositionResolver: numbers and the hunk header of a well-formed diff\<close>

lemma digit_char: "(d::nat) < 10 \<Longrightarrow> (of_char (char_of (48 + d)) :: nat) = 48 + d"
  by simp

lemma is_digit_char: "(d::nat) < 10 \<Longrightarrow> is_digit (char_of (48 + d))"
  by (simp add: is_digit_def)

lemma str_nat_not_Nil: "str_nat n \<noteq> []"
  by (subst str_nat.simps) simp

lemma str_nat_digits: "\<forall>c\<in>set (str_nat n). is_digit c"
proof (induction n rule: str_nat.induct)
  case (1 n)
  show ?case
  proof (cases "n < 10")
    case True
    then show ?thesis
      by (subst str_nat.simps) (simp add: is_digit_char)
  next
    case False
    have "n mod 10 < 10" by simp
    then have "is_digit (char_of (48 + n mod 10))" by (rule is_digit_char)
    with False "1.IH" show ?thesis
      by (subst str_nat.simps) simp
  qed
qed

lemma digits_to_nat_snoc:
  "digits_to_nat (ds @ [c]) = 10 * digits_to_nat ds + (of_char c - 48)"
  by (simp add: digits_to_nat_def)

lemma digits_to_nat_str_nat: "digits_to_nat (str_nat n) = n"
proof (induction n rule: str_nat.induct)
  case (1 n)
  show ?case
  proof (cases "n < 10")
    case True
    then show ?thesis
      by (subst str_nat.simps) (simp add: digits_to_nat_def)
  next
    case False
    have m: "n mod 10 < 10" by simp
    have "digits_to_nat (str_nat (n div 10) @ [char_of (48 + n mod 10)])
            = 10 * (n div 10) + n mod 10"
      unfolding digits_to_nat_snoc "1.IH" [OF False] digit_char [OF m] by simp
    with False show ?thesis
      by (subst str_nat.simps) simp
  qed
qed

lemma match_lit_append: "match_lit lit (lit @ r) = Some r"
  by (simp add: match_lit_def startswith_def)

lemma match_digits_str_nat:
  assumes "r = [] \<or> \<not> is_digit (hd r)"
  shows "match_digits (str_nat n @ r) = Some (str_nat n, r)"
proof -
  have r: "takeWhile is_digit r = []" "dropWhile is_digit r = r"
    using assms by (cases r; simp)+
  have "takeWhile is_digit (str_nat n @ r) = str_nat n"
    using str_nat_digits [of n] r by (simp add: takeWhile_append2)
  moreover have "dropWhile is_digit (str_nat n @ r) = r"
    using str_nat_digits [of n] r by (simp add: dropWhile_append2)
  ultimately show ?thesis
    by (simp add: match_digits_def str_nat_not_Nil)
qed

lemma not_digit_space: "\<not> is_digit (CHR '' '')"
  by (simp add: is_digit_def)

lemma not_digit_comma: "\<not> is_digit (CHR '','')"
  by (simp add: is_digit_def)

lemma match_opt_count_render:
  "match_opt_count (render_count b @ CHR '' '' # r) = CHR '' '' # r"
proof (cases b)
  case None
  then show ?thesis by (simp add: match_opt_count_def match_lit_def)
next
  case (Some n)
  have "match_digits (str_nat n @ CHR '' '' # r) = Some (str_nat n, CHR '' '' # r)"
    by (rule match_digits_str_nat) (simp add: not_digit_space)
  with Some show ?thesis
    by (simp add: match_opt_count_def match_lit_def)
qed

lemma hunk_re_render: "hunk_re (render_hunk_header h) = Some (str_nat (new_start h))"
proof -
  define t3 where "t3 = '' @@'' @ heading h"
  define t2 where "t2 = '' +'' @ str_nat (new_start h) @ render_count (new_count h) @ t3"
  define t1 where "t1 = str_nat (old_start h) @ render_count (old_count h) @ t2"
  have r: "render_hunk_header h = ''@@ -'' @ t1"
    by (simp add: render_hunk_header_def t1_def t2_def t3_def)
  have e1: "match_lit ''@@ -'' (''@@ -'' @ t1) = Some t1"
    by (rule match_lit_append)
  have c2: "render_count (old_count h) @ t2 = [] \<or> \<not> is_digit (hd (render_count (old_count h) @ t2))"
    by (cases "old_count h") (simp_all add: t2_def not_digit_space not_digit_comma)
  have e2: "match_digits t1 = Some (str_nat (old_start h), render_count (old_count h) @ t2)"
    unfolding t1_def using c2 by (rule match_digits_str_nat)
  have t2': "t2 = CHR '' '' # CHR ''+'' # str_nat (new_start h) @ render_count (new_count h) @ t3"
    by (simp add: t2_def)
  have e3: "match_opt_count (render_count (old_count h) @ t2) = t2"
    unfolding t2' by (rule match_opt_count_render)
  have e4: "match_lit '' +'' t2 = Some (str_nat (new_start h) @ render_count (new_count h) @ t3)"
    unfolding t2_def by (rule match_lit_append)
  have c5: "render_count (new_count h) @ t3 = [] \<or> \<not> is_digit (hd (render_count (new_count h) @ t3))"
    by (cases "new_count h") (simp_all add: t3_def not_digit_space not_digit_comma)
  have e5: "match_digits (str_nat (new_start h) @ render_count (new_count h) @ t3)
              = Some (str_nat (new_start h), render_count (new_count h) @ t3)"
    using c5 by (rule match_digits_str_nat)
  have t3': "t3 = CHR '' '' # CHR ''@'' # CHR ''@'' # heading h"
    by (simp add: t3_def)
  have e6: "match_opt_count (render_count (new_count h) @ t3) = t3"
    unfolding t3' by (rule match_opt_count_render)
  have e7: "match_lit '' @@'' t3 = Some (heading h)"
    unfolding t3_def by (rule match_lit_append)
  show ?thesis
    unfolding r hunk_re_def by (simp only: e1 e2 e3 e4 e5 e6 e7 option.case prod.case)
qed

section \<open>DiffPositionResolver: scanning one hunk\<close>

lemma render_line_plus: "startswith (render_line l) ''+'' \<longleftrightarrow> fst l = Added"
  by (cases "fst l") (simp_all add: render_line_def)

lemma render_line_minus: "startswith (render_line l) ''-'' \<longleftrightarrow> fst l = Removed"
  by (cases "fst l") (simp_all add: render_line_def)

lemma render_line_not_header:
  "\<not> startswith (render_line l) ''@@''" "\<not> startswith (render_line l) ''diff --git''"
  by (cases "fst l"; simp add: render_line_def)+

lemma hunk_header_at: "startswith (render_hunk_header h) ''@@''"
  by (simp add: render_hunk_header_def)

lemma hunk_header_not_file: "\<not> startswith (render_hunk_header h) ''diff --git''"
  by (simp add: render_hunk_header_def)

lemma file_header_git: "startswith (render_file_header f) ''diff --git''"
  by (simp add: render_file_header_def)

lemma git_not_at: "startswith l ''diff --git'' \<Longrightarrow> \<not> startswith l ''@@''"
  by (cases l) auto

text \<open>The new-file line number, counted from any start.\<close>

lemma scan_hunk_Some:
  "scan_hunk t c pos (map render_line b) = Some p \<Longrightarrow>
     pos \<le> p \<and> p - pos < length b \<and> fst (b ! (p - pos)) = Added
     \<and> c + int (length (filter (\<lambda>l. fst l \<noteq> Removed) (take (p - pos) b))) = t"
proof (induction b arbitrary: c pos)
  case Nil
  then show ?case by simp
next
  case (Cons l b)
  show ?case
  proof (cases "fst l = Added \<and> c = t")
    case True
    with Cons.prems have "p = pos" by (simp add: render_line_plus)
    with True show ?thesis by simp
  next
    case False
    define c' where "c' = (if fst l = Removed then c else c + 1)"
    from False Cons.prems have "scan_hunk t c' (pos + 1) (map render_line b) = Some p"
      by (cases "fst l") (auto simp add: render_line_plus render_line_minus c'_def)
    from Cons.IH [OF this]
    have le: "pos + 1 \<le> p" and ln: "p - (pos + 1) < length b"
      and ad: "fst (b ! (p - (pos + 1))) = Added"
      and no: "c' + int (length (filter (\<lambda>l. fst l \<noteq> Removed) (take (p - (pos + 1)) b))) = t"
      by simp_all
    from le obtain j where j: "p - pos = Suc j" and j': "p - (pos + 1) = j"
      by (metis Suc_diff_Suc Suc_eq_plus1 Suc_le_lessD diff_diff_left plus_1_eq_Suc add.commute)
    show ?thesis
      using le ln ad no unfolding j j' c'_def by auto
  qed
qed

lemma scan_hunk_None:
  "scan_hunk t c pos (map render_line b) = None \<Longrightarrow> k < length b \<Longrightarrow>
     \<not> (fst (b ! k) = Added
        \<and> c + int (length (filter (\<lambda>l. fst l \<noteq> Removed) (take k b))) = t)"
proof (induction b arbitrary: c pos k)
  case Nil
  then show ?case by simp
next
  case (Cons l b)
  have first: "\<not> (fst l = Added \<and> c = t)"
    using Cons.prems(1) by (auto simp add: render_line_plus)
  define c' where "c' = (if fst l = Removed then c else c + 1)"
  from first Cons.prems(1) have r: "scan_hunk t c' (pos + 1) (map render_line b) = None"
    by (cases "fst l") (auto simp add: render_line_plus render_line_minus c'_def)
  show ?case
  proof (cases k)
    case 0
    with first show ?thesis by simp
  next
    case (Suc j)
    with Cons.prems(2) have "j < length b" by simp
    from Cons.IH [OF r this] Suc show ?thesis
      by (auto simp add: c'_def)
  qed
qed

lemma scan_hunk_added_at:
  "scan_hunk t (int (new_start h)) 1 (map render_line (body h)) = Some p \<Longrightarrow>
     1 \<le> p \<and> added_at h (p - 1) t"
  using scan_hunk_Some [of t "int (new_start h)" 1 "body h" p]
  by (simp add: added_at_def new_line_no_def)

lemma scan_hunk_not_added_at:
  "scan_hunk t (int (new_start h)) 1 (map render_line (body h)) = None \<Longrightarrow> \<not> added_at h k t"
  using scan_hunk_None [of t "int (new_start h)" 1 "body h" k]
  by (auto simp add: added_at_def new_line_no_def)

section \<open>DiffPositionResolver: the hunks of one section\<close>

lemma hunks_loop_end: "hunks_loop A t (length A) = Some (Inr (length A))"
  by (subst hunks_loop.simps) simp

lemma hunks_loop_git:
  "startswith x ''diff --git'' \<Longrightarrow> hunks_loop (A @ x # R) t (length A) = Some (Inr (length A))"
  by (subst hunks_loop.simps) (simp add: git_not_at)

lemma hunks_loop_stop:
  assumes "R = [] \<or> startswith (hd R) ''diff --git''"
  shows "hunks_loop (A @ R) t (length A) = Some (Inr (length A))"
proof (cases R)
  case Nil
  then show ?thesis by (simp add: hunks_loop_end)
next
  case (Cons x R')
  with assms show ?thesis by (simp add: hunks_loop_git)
qed

lemma hunks_loop_other:
  "body_line x \<Longrightarrow>
     hunks_loop (A @ x # R) t (length A) = hunks_loop (A @ x # R) t (length A + 1)"
  by (subst hunks_loop.simps) simp

lemma hunks_loop_skip:
  "\<forall>l\<in>set X. body_line l \<Longrightarrow>
     hunks_loop (A @ X @ R) t (length A) = hunks_loop (A @ X @ R) t (length A + length X)"
proof (induction X arbitrary: A)
  case Nil
  show ?case by simp
next
  case (Cons x X)
  have "hunks_loop (A @ (x # X) @ R) t (length A) = hunks_loop (A @ x # (X @ R)) t (length A + 1)"
    using Cons.prems hunks_loop_other [of x A "X @ R" t] by simp
  also have "\<dots> = hunks_loop ((A @ [x]) @ X @ R) t (length (A @ [x]))"
    by simp
  also have "\<dots> = hunks_loop ((A @ [x]) @ X @ R) t (length (A @ [x]) + length X)"
    using Cons.prems by (intro Cons.IH) simp
  finally show ?case by simp
qed

lemma blank_body_line: "\<forall>l\<in>set (replicate n []). body_line l"
  by simp

lemma scan_hunk_blank: "scan_hunk t c pos (replicate n []) = None"
  by (induction n arbitrary: c pos) simp_all

lemma scan_hunk_append_blank:
  "scan_hunk t c pos (ls @ replicate n []) = scan_hunk t c pos ls"
  by (induction ls arbitrary: c pos) (simp_all add: scan_hunk_blank)

lemma takeWhile_body_blank:
  assumes "R = [] \<or> \<not> body_line (hd R)"
  shows "takeWhile body_line (map render_line b @ replicate n [] @ R)
           = map render_line b @ replicate n []"
proof -
  have "takeWhile body_line R = []"
    using assms by (cases R) auto
  moreover have "takeWhile body_line ((map render_line b @ replicate n []) @ R)
                   = (map render_line b @ replicate n []) @ takeWhile body_line R"
    by (rule takeWhile_append2) (auto simp add: render_line_not_header)
  ultimately show ?thesis by simp
qed

lemma hunks_loop_hunk:
  assumes "R = [] \<or> \<not> body_line (hd R)"
  shows "hunks_loop (A @ render_hunk h @ replicate n [] @ R) t (length A) =
     (case scan_hunk t (int (new_start h)) 1 (map render_line (body h)) of
        Some p \<Rightarrow> Some (Inl p)
      | None \<Rightarrow> hunks_loop (A @ render_hunk h @ replicate n [] @ R) t
                  (length A + length (render_hunk h) + n))"
proof -
  let ?ls = "A @ render_hunk h @ replicate n [] @ R"
  let ?hl = "map render_line (body h) @ replicate n []"
  have ls: "?ls = A @ render_hunk_header h # (map render_line (body h) @ replicate n [] @ R)"
    by (simp add: render_hunk_def)
  have i: "length A < length ?ls" by (simp add: render_hunk_def)
  have at: "?ls ! length A = render_hunk_header h" unfolding ls by simp
  have dr: "drop (length A + 1) ?ls = map render_line (body h) @ replicate n [] @ R"
    unfolding ls by simp
  have tw: "takeWhile body_line (drop (length A + 1) ?ls) = ?hl"
    unfolding dr using assms by (rule takeWhile_body_blank)
  have len: "length A + 1 + length ?hl = length A + length (render_hunk h) + n"
    by (simp add: render_hunk_def)
  show ?thesis
    by (subst hunks_loop.simps)
       (simp only: i at hunk_header_at hunk_re_render if_True option.case Let_def tw len
          digits_to_nat_str_nat scan_hunk_append_blank)
qed

lemma hunks_loop_hunks:
  assumes "R = [] \<or> startswith (hd R) ''diff --git''"
  shows "(\<exists>p. hunks_loop (A @ concat (map render_hunk hs) @ replicate n [] @ R) t (length A)
                = Some (Inl p)
              \<and> 1 \<le> p \<and> (\<exists>h\<in>set hs. added_at h (p - 1) t))
       \<or> (hunks_loop (A @ concat (map render_hunk hs) @ replicate n [] @ R) t (length A)
              = Some (Inr (length A + length (concat (map render_hunk hs)) + n))
           \<and> (\<forall>h\<in>set hs. \<forall>k. \<not> added_at h k t))"
proof (induction hs arbitrary: A)
  case Nil
  have "hunks_loop (A @ replicate n [] @ R) t (length A)
          = hunks_loop (A @ replicate n [] @ R) t (length A + length (replicate n ([] :: string)))"
    using blank_body_line by (rule hunks_loop_skip)
  also have "\<dots> = hunks_loop ((A @ replicate n []) @ R) t (length (A @ replicate n []))"
    by simp
  also have "\<dots> = Some (Inr (length (A @ replicate n [])))"
    using assms by (rule hunks_loop_stop)
  finally show ?case by simp
next
  case (Cons h hs)
  let ?ls = "A @ concat (map render_hunk (h # hs)) @ replicate n [] @ R"
  let ?A' = "A @ render_hunk h"
  have ls': "?ls = ?A' @ concat (map render_hunk hs) @ replicate n [] @ R"
    by simp
  have step: "hunks_loop ?ls t (length A) =
     (case scan_hunk t (int (new_start h)) 1 (map render_line (body h)) of
        Some p \<Rightarrow> Some (Inl p)
      | None \<Rightarrow> hunks_loop ?ls t (length ?A'))"
  proof (cases hs)
    case Nil
    have R: "R = [] \<or> \<not> body_line (hd R)"
      using assms by (cases R) auto
    have skip_back: "hunks_loop (?A' @ replicate n [] @ R) t (length ?A' + n)
                  = hunks_loop (?A' @ replicate n [] @ R) t (length ?A')"
      using hunks_loop_skip [of "replicate n []" ?A' R t] by simp
    from hunks_loop_hunk [OF R, of A h n t] skip_back show ?thesis
      unfolding Nil by (simp split: option.split)
  next
    case (Cons h' hs')
    let ?R = "concat (map render_hunk hs) @ replicate n [] @ R"
    have R: "?R = [] \<or> \<not> body_line (hd ?R)"
      using Cons by (simp add: render_hunk_def hunk_header_at)
    from hunks_loop_hunk [OF R, of A h 0 t] show ?thesis
      by (simp split: option.split)
  qed
  show ?case
  proof (cases "scan_hunk t (int (new_start h)) 1 (map render_line (body h))")
    case (Some p)
    with step have "hunks_loop ?ls t (length A) = Some (Inl p)"
      by simp
    moreover from scan_hunk_added_at [OF Some] have "1 \<le> p" and "added_at h (p - 1) t"
      by simp_all
    ultimately show ?thesis by auto
  next
    case None
    then have no: "\<forall>k. \<not> added_at h k t"
      by (simp add: scan_hunk_not_added_at)
    from None step
    have e: "hunks_loop ?ls t (length A)
               = hunks_loop (?A' @ concat (map render_hunk hs) @ replicate n [] @ R) t (length ?A')"
      unfolding ls' by simp
    have len: "length ?A' + length (concat (map render_hunk hs)) + n
                 = length A + length (concat (map render_hunk (h # hs))) + n"
      by simp
    from Cons.IH [of ?A'] show ?thesis
      unfolding e len using no by auto
  qed
qed

section \<open>DiffPositionResolver: the sections of a diff\<close>

lemma files_loop_end: "files_loop A fp t (length A) = Some NotFound"
  by (subst files_loop.simps) simp

lemma files_loop_other:
  "\<not> (startswith x ''diff --git'' \<and> contains x (''b/'' @ fp)) \<Longrightarrow>
     files_loop (A @ x # R) fp t (length A) = files_loop (A @ x # R) fp t (length A + 1)"
  by (subst files_loop.simps) auto

lemma files_loop_skip:
  "\<forall>l\<in>set X. \<not> startswith l ''diff --git'' \<Longrightarrow>
     files_loop (A @ X @ R) fp t (length A) = files_loop (A @ X @ R) fp t (length A + length X)"
proof (induction X arbitrary: A)
  case Nil
  show ?case by simp
next
  case (Cons x X)
  have "files_loop (A @ (x # X) @ R) fp t (length A) = files_loop (A @ x # (X @ R)) fp t (length A + 1)"
    using Cons.prems files_loop_other [of x fp A "X @ R" t] by simp
  also have "\<dots> = files_loop ((A @ [x]) @ X @ R) fp t (length (A @ [x]))"
    by simp
  also have "\<dots> = files_loop ((A @ [x]) @ X @ R) fp t (length (A @ [x]) + length X)"
    using Cons.prems by (intro Cons.IH) simp
  finally show ?case by simp
qed

lemma files_loop_selected:
  "startswith x ''diff --git'' \<Longrightarrow> contains x (''b/'' @ fp) \<Longrightarrow>
     files_loop (A @ x # R) fp t (length A) =
       (case hunks_loop (A @ x # R) t (length A + 1) of
          None \<Rightarrow> None
        | Some (Inl p) \<Rightarrow> Some (Position p)
        | Some (Inr i') \<Rightarrow> files_loop (A @ x # R) fp t i')"
  by (subst files_loop.simps) simp

lemma hunk_lines_not_git: "\<forall>l\<in>set (concat (map render_hunk hs)). \<not> startswith l ''diff --git''"
  by (auto simp add: render_hunk_def hunk_header_not_file render_line_not_header)

lemma hunks_loop_section:
  assumes R: "R = [] \<or> startswith (hd R) ''diff --git''"
    and ex: "\<forall>l\<in>set (extra_header f). body_line l"
  shows "(\<exists>p. hunks_loop (A @ render_file f @ replicate n [] @ R) t (length A + 1) = Some (Inl p)
              \<and> 1 \<le> p \<and> (\<exists>h\<in>set (hunks f). added_at h (p - 1) t))
       \<or> (hunks_loop (A @ render_file f @ replicate n [] @ R) t (length A + 1)
              = Some (Inr (length A + length (render_file f) + n))
           \<and> (\<forall>h\<in>set (hunks f). \<forall>k. \<not> added_at h k t))"
proof -
  let ?H = "concat (map render_hunk (hunks f))"
  let ?T = "replicate n [] @ R"
  let ?A1 = "A @ [render_file_header f]"
  let ?A2 = "?A1 @ extra_header f"
  have ls: "A @ render_file f @ ?T = ?A1 @ extra_header f @ (?H @ ?T)"
    by (simp add: render_file_def)
  have ls2: "?A1 @ extra_header f @ (?H @ ?T) = ?A2 @ ?H @ ?T"
    by simp
  have "hunks_loop (A @ render_file f @ ?T) t (length A + 1)
          = hunks_loop (?A1 @ extra_header f @ (?H @ ?T)) t (length ?A1)"
    unfolding ls by simp
  also have "\<dots> = hunks_loop (?A1 @ extra_header f @ (?H @ ?T)) t (length ?A1 + length (extra_header f))"
    using ex by (rule hunks_loop_skip)
  also have "\<dots> = hunks_loop (?A2 @ ?H @ ?T) t (length ?A2)"
    unfolding ls2 by simp
  finally have e: "hunks_loop (A @ render_file f @ ?T) t (length A + 1)
                     = hunks_loop (?A2 @ ?H @ ?T) t (length ?A2)" .
  have len: "length ?A2 + length ?H + n = length A + length (render_file f) + n"
    by (simp add: render_file_def)
  from hunks_loop_hunks [OF R, of ?A2 "hunks f" n t] show ?thesis
    unfolding e len .
qed

lemma files_loop_sections:
  assumes "\<forall>f\<in>set fs. wf_file f"
  shows "(\<exists>p. files_loop (A @ concat (map render_file fs) @ replicate n []) fp t (length A)
                = Some (Position p)
              \<and> 1 \<le> p
              \<and> (\<exists>f\<in>set fs. selected fp f \<and> (\<exists>h\<in>set (hunks f). added_at h (p - 1) t)))
       \<or> (files_loop (A @ concat (map render_file fs) @ replicate n []) fp t (length A)
                = Some NotFound
           \<and> (\<forall>f\<in>set fs. selected fp f \<longrightarrow> (\<forall>h\<in>set (hunks f). \<forall>k. \<not> added_at h k t)))"
  using assms
proof (induction fs arbitrary: A)
  case Nil
  have b: "\<forall>l\<in>set (replicate n ([] :: string)). \<not> startswith l ''diff --git''"
    by simp
  have "files_loop (A @ replicate n [] @ []) fp t (length A)
          = files_loop (A @ replicate n [] @ []) fp t (length A + length (replicate n ([] :: string)))"
    using b by (rule files_loop_skip)
  also have "\<dots> = files_loop (A @ replicate n []) fp t (length (A @ replicate n []))"
    by simp
  also have "\<dots> = Some NotFound" by (rule files_loop_end)
  finally show ?case by simp
next
  case (Cons f fs)
  let ?B = "replicate n ([] :: string)"
  let ?S = "concat (map render_file fs)"
  let ?ls = "A @ concat (map render_file (f # fs)) @ ?B"
  let ?A' = "A @ render_file f"
  from Cons.prems have wf: "wf_file f" and wfs: "\<forall>f\<in>set fs. wf_file f" by simp_all
  from wf have ex: "\<forall>l\<in>set (extra_header f). body_line l"
    by (simp add: wf_file_def)
  have ls': "?ls = A @ render_file_header f
                     # (extra_header f @ concat (map render_hunk (hunks f)) @ ?S @ ?B)"
    by (simp add: render_file_def)
  have ls'': "?ls = ?A' @ ?S @ ?B" by simp
  note IH = Cons.IH [OF wfs, of ?A']
  have inner: "(\<exists>p. hunks_loop ?ls t (length A + 1) = Some (Inl p)
              \<and> 1 \<le> p \<and> (\<exists>h\<in>set (hunks f). added_at h (p - 1) t))
       \<or> ((\<exists>i'. hunks_loop ?ls t (length A + 1) = Some (Inr i')
                 \<and> files_loop ?ls fp t i' = files_loop ?ls fp t (length ?A'))
           \<and> (\<forall>h\<in>set (hunks f). \<forall>k. \<not> added_at h k t))"
  proof (cases fs)
    case Nil
    have b: "\<forall>l\<in>set ?B. \<not> startswith l ''diff --git''" by simp
    have "files_loop (?A' @ ?B @ []) fp t (length ?A')
            = files_loop (?A' @ ?B @ []) fp t (length ?A' + length ?B)"
      using b by (rule files_loop_skip)
    then have skip_back: "files_loop ?ls fp t (length A + length (render_file f) + n)
                       = files_loop ?ls fp t (length ?A')"
      unfolding ls'' Nil by simp
    from hunks_loop_section [OF _ ex, of "[]" A n t] skip_back show ?thesis
      unfolding Nil by auto
  next
    case (Cons f' fs')
    have R: "?S @ ?B = [] \<or> startswith (hd (?S @ ?B)) ''diff --git''"
      using Cons by (simp add: render_file_def file_header_git)
    from hunks_loop_section [OF R ex, of A 0 t] show ?thesis
      by auto
  qed
  show ?case
  proof (cases "selected fp f")
    case True
    then have c: "contains (render_file_header f) (''b/'' @ fp)" by (simp add: selected_def)
    have step: "files_loop ?ls fp t (length A) =
       (case hunks_loop ?ls t (length A + 1) of
          None \<Rightarrow> None
        | Some (Inl p) \<Rightarrow> Some (Position p)
        | Some (Inr i') \<Rightarrow> files_loop ?ls fp t i')"
      unfolding ls' using file_header_git c by (rule files_loop_selected)
    from inner show ?thesis
    proof (elim disjE exE conjE)
      fix p
      assume "hunks_loop ?ls t (length A + 1) = Some (Inl p)" and "1 \<le> p"
        and "\<exists>h\<in>set (hunks f). added_at h (p - 1) t"
      with step True show ?thesis by auto
    next
      fix i'
      assume h: "hunks_loop ?ls t (length A + 1) = Some (Inr i')"
        and f: "files_loop ?ls fp t i' = files_loop ?ls fp t (length ?A')"
        and no: "\<forall>h\<in>set (hunks f). \<forall>k. \<not> added_at h k t"
      from step h f
      have "files_loop ?ls fp t (length A) = files_loop (?A' @ ?S @ ?B) fp t (length ?A')"
        unfolding ls'' by simp
      with IH no show ?thesis by auto
    qed
  next
    case False
    then have nc: "\<not> (startswith (render_file_header f) ''diff --git''
                      \<and> contains (render_file_header f) (''b/'' @ fp))"
      by (simp add: selected_def)
    let ?X = "extra_header f @ concat (map render_hunk (hunks f))"
    let ?A1 = "A @ [render_file_header f]"
    have X: "\<forall>l\<in>set ?X. \<not> startswith l ''diff --git''"
      using ex hunk_lines_not_git [of "hunks f"] by auto
    have "files_loop ?ls fp t (length A) = files_loop ?ls fp t (length A + 1)"
      unfolding ls' using nc by (rule files_loop_other)
    also have "\<dots> = files_loop (?A1 @ ?X @ (?S @ ?B)) fp t (length ?A1)"
      by (simp add: render_file_def)
    also have "\<dots> = files_loop (?A1 @ ?X @ (?S @ ?B)) fp t (length ?A1 + length ?X)"
      using X by (rule files_loop_skip)
    also have "\<dots> = files_loop (?A' @ ?S @ ?B) fp t (length ?A')"
      by (simp add: render_file_def)
    finally have "files_loop ?ls fp t (length A) = files_loop (?A' @ ?S @ ?B) fp t (length ?A')" .
    with IH False show ?thesis by auto
  qed
qed

section \<open>DiffPositionResolver: the lines of a rendered diff\<close>

lemma split_nl_no_nl: "no_nl s \<Longrightarrow> split_nl s = [s]"
  by (induction s) (auto simp add: no_nl_def)

lemma split_nl_line: "no_nl l \<Longrightarrow> split_nl (l @ newline # s) = l # split_nl s"
  by (induction l) (auto simp add: no_nl_def)

lemma split_join_nl:
  "ls \<noteq> [] \<Longrightarrow> \<forall>l\<in>set ls. no_nl l \<Longrightarrow> split_nl (join_nl ls) = ls"
proof (induction ls rule: join_nl.induct)
  case 1
  then show ?case by simp
next
  case (2 x)
  then show ?case by (simp add: split_nl_no_nl)
next
  case (3 x y ys)
  then show ?case by (simp add: split_nl_line)
qed

lemma no_nl_append: "no_nl (a @ b) \<longleftrightarrow> no_nl a \<and> no_nl b"
  by (auto simp add: no_nl_def)

lemma no_nl_str_nat: "no_nl (str_nat n)"
  using str_nat_digits [of n] by (auto simp add: no_nl_def is_digit_def)

lemma no_nl_render_count: "no_nl (render_count c)"
  using no_nl_str_nat by (cases c) (simp_all add: no_nl_def)

lemma no_nl_hunk_header: "no_nl (heading h) \<Longrightarrow> no_nl (render_hunk_header h)"
  unfolding render_hunk_header_def no_nl_append
  by (simp add: no_nl_str_nat no_nl_render_count) (simp add: no_nl_def)

lemma no_nl_render_line: "no_nl (snd l) \<Longrightarrow> no_nl (render_line l)"
  by (cases "fst l") (simp_all add: render_line_def no_nl_def)

lemma no_nl_file_header: "no_nl (path f) \<Longrightarrow> no_nl (render_file_header f)"
  unfolding render_file_header_def no_nl_append
  by simp (simp add: no_nl_def)

lemma no_nl_render_hunk: "wf_hunk h \<Longrightarrow> \<forall>l\<in>set (render_hunk h). no_nl l"
  by (simp add: wf_hunk_def render_hunk_def no_nl_hunk_header no_nl_render_line)

lemma no_nl_render_file: "wf_file f \<Longrightarrow> \<forall>l\<in>set (render_file f). no_nl l"
  by (auto simp add: wf_file_def render_file_def no_nl_file_header dest: no_nl_render_hunk)

lemma no_nl_Nil: "no_nl []"
  by (simp add: no_nl_def)

lemma lines_of_render_diff:
  assumes "wf_diff d" and "d \<noteq> []"
  shows "split_nl (render_diff d n) = concat (map render_file d) @ replicate n []"
proof -
  from assms(2) have "concat (map render_file d) @ replicate n [] \<noteq> []"
    by (cases d) (simp_all add: render_file_def)
  moreover from assms(1) have "\<forall>l\<in>set (concat (map render_file d) @ replicate n []). no_nl l"
    by (auto simp add: wf_diff_def no_nl_Nil dest: no_nl_render_file)
  ultimately show ?thesis
    unfolding render_diff_def by (rule split_join_nl)
qed

lemma lines_of_blank: "split_nl (join_nl (replicate n [])) = (if n = 0 then [[]] else replicate n [])"
proof (cases n)
  case 0
  then show ?thesis by simp
next
  case (Suc m)
  have "split_nl (join_nl (replicate (Suc m) [])) = replicate (Suc m) []"
    by (rule split_join_nl) (simp_all add: no_nl_Nil)
  with Suc show ?thesis by simp
qed

lemma startswith_refl: "startswith s s"
  by (simp add: startswith_def)

lemma contains_self: "contains s s"
  by (cases s) (simp_all only: contains.simps startswith_refl simp_thms)

lemma contains_append: "contains (a @ s) s"
  by (induction a) (simp_all add: contains_self)

lemma own_section_selected: "selected (path f) f"
proof -
  have "render_file_header f = (''diff --git a/'' @ path f @ '' '') @ (''b/'' @ path f)"
    by (simp add: render_file_header_def)
  then show ?thesis
    unfolding selected_def by (simp only: contains_append)
qed

lemma position_or_not_found:
  assumes "wf_diff d"
  shows "(\<exists>p. find_diff_position (render_diff d n) file_path line_number = Some (Position p)
              \<and> 1 \<le> p
              \<and> (\<exists>f\<in>set d. selected file_path f
                    \<and> (\<exists>h\<in>set (hunks f). added_at h (p - 1) line_number)))
          \<or> (find_diff_position (render_diff d n) file_path line_number = Some NotFound
              \<and> (\<forall>f\<in>set d. selected file_path f
                    \<longrightarrow> (\<forall>h\<in>set (hunks f). \<forall>k. \<not> added_at h k line_number)))"
proof (cases "d = []")
  case True
  let ?ls = "split_nl (join_nl (replicate n []))"
  have "\<forall>l\<in>set ?ls. \<not> startswith l ''diff --git''"
    by (simp add: lines_of_blank)
  from files_loop_skip [OF this, of "[]" "[]" file_path line_number]
  have "files_loop ?ls file_path line_number 0 = files_loop ?ls file_path line_number (length ?ls)"
    by simp
  also have "\<dots> = Some NotFound" by (rule files_loop_end)
  finally show ?thesis
    using True by (simp add: find_diff_position_def render_diff_def)
next
  case False
  with assms
  have "split_nl (render_diff d n) = concat (map render_file d) @ replicate n []"
    by (rule lines_of_render_diff)
  moreover from assms have "\<forall>f\<in>set d. wf_file f" by (simp add: wf_diff_def)
  note files_loop_sections [OF this, of "[]" n file_path line_number]
  ultimately show ?thesis
    by (simp add: find_diff_position_def)
qed

text \<open>
  When the sections that are scanned for a path are sections of that path only, the
  result is found in them: either a position \<open>p \<ge> 1\<close> such that, in a hunk of a section
  of the path, the body line at offset \<open>p - 1\<close> is an Added line whose new-file line
  number is the target line, or \<open>NotFound\<close>, and then no hunk of a section of the path
  has the target line as the number of an Added line.
\<close>

lemma find_diff_position_own_sections:
  assumes "wf_diff d"
    and "\<forall>f\<in>set d. selected file_path f \<longrightarrow> path f = file_path"
  shows "(\<exists>p. find_diff_position (render_diff d n) file_path line_number = Some (Position p)
              \<and> 1 \<le> p
              \<and> (\<exists>f\<in>set d. path f = file_path
                    \<and> (\<exists>h\<in>set (hunks f). added_at h (p - 1) line_number)))
          \<or> (find_diff_position (render_diff d n) file_path line_number = Some NotFound
              \<and> (\<forall>f\<in>set d. path f = file_path
                    \<longrightarrow> (\<forall>h\<in>set (hunks f). \<forall>k. \<not> added_at h k line_number)))"
proof -
  have own: "selected file_path f" if "path f = file_path" for f
    using that own_section_selected [of f] by simp
  from position_or_not_found [OF assms(1), of n file_path line_number]
  show ?thesis
  proof
    assume "\<exists>p. find_diff_position (render_diff d n) file_path line_number = Some (Position p)
              \<and> 1 \<le> p
              \<and> (\<exists>f\<in>set d. selected file_path f
                    \<and> (\<exists>h\<in>set (hunks f). added_at h (p - 1) line_number))"
    with assms(2) show ?thesis by blast
  next
    assume "find_diff_position (render_diff d n) file_path line_number = Some NotFound
              \<and> (\<forall>f\<in>set d. selected file_path f
                    \<longrightarrow> (\<forall>h\<in>set (hunks f). \<forall>k. \<not> added_at h k line_number))"
    with own show ?thesis by blast
  qed
qed

lemma find_diff_position_sample:
  "render_diff sample_diff 0 =
     ''diff --git a/test.py b/test.py\<newline>@@ -1,3 +1,3 @@\<newline> old line 1\<newline>-old line 2\<newline>+new line 2\<newline> old line 3''
   \<and> find_diff_position (render_diff sample_diff 0) ''test.py'' 2 = Some (Position 3)"
  by code_simp

section \<open>DiffPositionResolver: a position from the section of another file\<close>

lemma two_file_diff_wf: "wf_diff two_file_diff"
  by (simp add: wf_diff_def wf_file_def wf_hunk_def two_file_diff_def no_nl_def)

text \<open>
  Claim C1 says that on a well-formed diff the position returned for a path lies in a
  hunk of the section of that path, at an Added line whose new-file line number is the
  target line, and that the result is \<open>NotFound\<close> when the target line is never an
  Added line in a hunk of that section. The source scans every section whose header
  contains \<open>b/<path>\<close>. In the well-formed diff of \<open>test.py.bak\<close> and \<open>test.py\<close> the
  only hunk of \<open>test.py\<close> adds line 5, at position 2, and no line 1: on the section of
  \<open>test.py\<close> alone the result for line 1 is \<open>NotFound\<close>. On the whole diff the result for
  \<open>test.py\<close> and line 1 is position 1, which is the Added line of the hunk of
  \<open>test.py.bak\<close>.
\<close>

theorem find_diff_position_position_from_other_section:
  "render_diff two_file_diff 0 =
     ''diff --git a/test.py.bak b/test.py.bak\<newline>@@ -1 +1 @@\<newline>+x\<newline>diff --git a/test.py b/test.py\<newline>@@ -5 +5 @@\<newline>-r\<newline>+b''
   \<and> path (two_file_diff ! 1) = ''test.py''
   \<and> \<not> added_at (hd (hunks (two_file_diff ! 1))) 0 1
   \<and> \<not> added_at (hd (hunks (two_file_diff ! 1))) 1 1
   \<and> length (body (hd (hunks (two_file_diff ! 1)))) = 2
   \<and> find_diff_position ''diff --git a/test.py b/test.py\<newline>@@ -5 +5 @@\<newline>-r\<newline>+b'' ''test.py'' 1
       = Some NotFound
   \<and> find_diff_position ''diff --git a/test.py b/test.py\<newline>@@ -5 +5 @@\<newline>-r\<newline>+b'' ''test.py'' 5
       = Some (Position 2)
   \<and> path (two_file_diff ! 0) = ''test.py.bak''
   \<and> added_at (hd (hunks (two_file_diff ! 0))) 0 1
   \<and> find_diff_position (render_diff two_file_diff 0) ''test.py'' 1 = Some (Position 1)"
proof -
  have "render_diff two_file_diff 0 =
     ''diff --git a/test.py.bak b/test.py.bak\<newline>@@ -1 +1 @@\<newline>+x\<newline>diff --git a/test.py b/test.py\<newline>@@ -5 +5 @@\<newline>-r\<newline>+b''"
    by code_simp
  moreover have "path (two_file_diff ! 1) = ''test.py''"
    and "path (two_file_diff ! 0) = ''test.py.bak''"
    and "length (body (hd (hunks (two_file_diff ! 1)))) = 2"
    by (simp_all add: two_file_diff_def)
  moreover have "\<not> added_at (hd (hunks (two_file_diff ! 1))) 0 1"
    and "\<not> added_at (hd (hunks (two_file_diff ! 1))) 1 1"
    and "added_at (hd (hunks (two_file_diff ! 0))) 0 1"
    by (simp_all add: two_file_diff_def added_at_def new_line_no_def)
  moreover have "find_diff_position
        ''diff --git a/test.py b/test.py\<newline>@@ -5 +5 @@\<newline>-r\<newline>+b'' ''test.py'' 1 = Some NotFound"
    by code_simp
  moreover have "find_diff_position
        ''diff --git a/test.py b/test.py\<newline>@@ -5 +5 @@\<newline>-r\<newline>+b'' ''test.py'' 5 = Some (Position 2)"
    by code_simp
  moreover have "find_diff_position (render_diff two_file_diff 0) ''test.py'' 1 = Some (Position 1)"
    by code_simp
  ultimately show ?thesis by blast
qed

section \<open>DiffPositionResolver: which file section is scanned\<close>

lemma files_loop_unselected:
  "\<forall>l\<in>set X. \<not> (startswith l ''diff --git'' \<and> contains l (''b/'' @ fp)) \<Longrightarrow>
     files_loop (A @ X @ R) fp t (length A) = files_loop (A @ X @ R) fp t (length A + length X)"
proof (induction X arbitrary: A)
  case Nil
  show ?case by simp
next
  case (Cons x X)
  have "files_loop (A @ (x # X) @ R) fp t (length A) = files_loop (A @ x # (X @ R)) fp t (length A + 1)"
    using Cons.prems files_loop_other [of x fp A "X @ R" t] by simp
  also have "\<dots> = files_loop ((A @ [x]) @ X @ R) fp t (length (A @ [x]))"
    by simp
  also have "\<dots> = files_loop ((A @ [x]) @ X @ R) fp t (length (A @ [x]) + length X)"
    using Cons.prems by (intro Cons.IH) simp
  finally show ?case by simp
qed

lemma no_header_selected:
  assumes "\<forall>l\<in>set (split_nl diff). \<not> (startswith l ''diff --git'' \<and> contains l (''b/'' @ fp))"
  shows "find_diff_position diff fp t = Some NotFound"
proof -
  have "files_loop (split_nl diff) fp t 0 = files_loop (split_nl diff) fp t (length (split_nl diff))"
    using files_loop_unselected [OF assms, of "[]" "[]" t] by simp
  then show ?thesis
    by (simp add: find_diff_position_def files_loop_end)
qed

text \<open>
  Claim C6 says that a section is selected by a suffix match of the path against the
  \<open>b/<path>\<close> form of its header, and that a header which holds the path at another
  place, such as a new path of which the path is not a suffix, does not select the
  section. The source tests \<open>f"b/{file_path}" in lines[i]\<close>, which holds wherever that
  text stands in the header. The header of \<open>test.py.bak\<close> contains \<open>b/test.py\<close> and does
  not end with it; asked for \<open>test.py\<close>, the function scans that section and returns a
  position inside the hunk of \<open>test.py.bak\<close>.
\<close>

theorem find_diff_position_scans_other_file:
  "contains ''diff --git a/test.py.bak b/test.py.bak'' (''b/'' @ ''test.py'')
   \<and> \<not> endswith ''diff --git a/test.py.bak b/test.py.bak'' (''b/'' @ ''test.py'')
   \<and> find_diff_position
        ''diff --git a/test.py.bak b/test.py.bak\<newline>@@ -1,1 +1,1 @@\<newline>+x'' ''test.py'' 1
       = Some (Position 1)"
  by code_simp

end
